theory Spec2Isabelle
  imports Main "HOL-Library.Sublist"
begin

section \<open>JavaScript values\<close>

text \<open>
  The command subsystem of \<^verbatim>\<open>lib/growatt.js\<close> inspects its inputs with
  \<^verbatim>\<open>typeof\<close> and property lookups, so values are modelled as an untyped
  datatype. An object is the list of its own enumerable properties in
  \<^verbatim>\<open>Object.keys\<close> order (property names are distinct and are not array
  indices); properties inherited from \<^verbatim>\<open>Object.prototype\<close> are outside the
  model. Numbers are only carried around by this code (\<^verbatim>\<open>-1\<close> is the one
  literal), never computed with, and are modelled as integers. A function value
  is an opaque identifier.
\<close>

datatype jsval =
    JUndefined
  | JNull
  | JBool bool
  | JNum int
  | JStr string
  | JFun nat
  | JObj "(string \<times> jsval) list"

type_synonym object = "(string \<times> jsval) list"

fun typeof :: "jsval \<Rightarrow> string" where
  "typeof JUndefined = ''undefined''"
| "typeof JNull = ''object''"
| "typeof (JBool b) = ''boolean''"
| "typeof (JNum n) = ''number''"
| "typeof (JStr s) = ''string''"
| "typeof (JFun f) = ''function''"
| "typeof (JObj ps) = ''object''"

text \<open>Truthiness, as used by \<^verbatim>\<open>if (res.data)\<close>.\<close>

fun truthy :: "jsval \<Rightarrow> bool" where
  "truthy JUndefined = False"
| "truthy JNull = False"
| "truthy (JBool b) = b"
| "truthy (JNum n) = (n \<noteq> 0)"
| "truthy (JStr s) = (s \<noteq> [])"
| "truthy (JFun f) = True"
| "truthy (JObj ps) = True"

text \<open>The errors the subsystem raises or passes on. The constructors carry the
  values the source interpolates into the message.\<close>

datatype error =
    UnknownAction jsval string
    \<comment> \<open>\<^verbatim>\<open>The action ${paramorgi.action} is unknown for invertertype ${type}\<close>\<close>
  | UnknownFunction string string
    \<comment> \<open>\<^verbatim>\<open>The function ${paramorgi.func} is unknown for invertertype ${type}\<close>\<close>
  | IncorrectValue jsval jsval string string
    \<comment> \<open>\<^verbatim>\<open>The value ${p[name].name} is incorrect for ${p[name].type} for function ${paramorgi.func} on invertertype ${type}\<close>\<close>
  | MissingValue jsval string string
    \<comment> \<open>\<^verbatim>\<open>The value ${p[name].name} is missing for send function ${paramorgi.func} on invertertype ${type}\<close>\<close>
  | TypeError
    \<comment> \<open>raised by the runtime: property read on \<^verbatim>\<open>undefined\<close>/\<^verbatim>\<open>null\<close>, call of a non-function\<close>
  | NotConnected
    \<comment> \<open>\<^verbatim>\<open>The server is not connected\<close>\<close>
  | PayloadError jsval
    \<comment> \<open>\<^verbatim>\<open>new Error(JSON.stringify(res.data, ...))\<close>: the message is the serialised payload\<close>
  | UnexpectedResponse string
    \<comment> \<open>\<^verbatim>\<open>The server sent an unexpected response: ${res.request.path}\<close>\<close>
  | FatalResponse
    \<comment> \<open>\<^verbatim>\<open>The server sent an unexpected response, a fatal error has occurred\<close>\<close>
  | Thrown jsval
    \<comment> \<open>a value thrown by a collaborator (the transport, a result parser) and passed on unchanged\<close>

text \<open>Sequencing of steps that may throw.\<close>

definition bnd :: "error + 'a \<Rightarrow> ('a \<Rightarrow> error + 'b) \<Rightarrow> error + 'b" where
  "bnd m f = (case m of Inl e \<Rightarrow> Inl e | Inr x \<Rightarrow> f x)"

text \<open>\<^verbatim>\<open>o[k]\<close> on an object literal: the own property, or \<^verbatim>\<open>undefined\<close>.\<close>

definition getp :: "object \<Rightarrow> string \<Rightarrow> jsval" where
  "getp ps k = (case map_of ps k of None \<Rightarrow> JUndefined | Some v \<Rightarrow> v)"

text \<open>\<^verbatim>\<open>v[k]\<close> on any value: reading a property of \<^verbatim>\<open>undefined\<close> or
  \<^verbatim>\<open>null\<close> throws a TypeError; a primitive or a function has none of the
  properties this code asks for.\<close>

fun get :: "jsval \<Rightarrow> string \<Rightarrow> error + jsval" where
  "get JUndefined k = Inl TypeError"
| "get JNull k = Inl TypeError"
| "get (JObj ps) k = Inr (getp ps k)"
| "get v k = Inr JUndefined"

text \<open>\<^verbatim>\<open>o[k] = v\<close>: an existing property keeps its place, a new one goes last.\<close>

fun setp :: "object \<Rightarrow> string \<Rightarrow> jsval \<Rightarrow> object" where
  "setp [] k v = [(k, v)]"
| "setp ((k', v') # ps) k v = (if k' = k then (k, v) # ps else (k', v') # setp ps k v)"

text \<open>\<^verbatim>\<open>Object.keys(v)\<close>; it throws on \<^verbatim>\<open>undefined\<close> and \<^verbatim>\<open>null\<close>, and a
  primitive has no own enumerable keys the code would meet (a string's index
  keys are left out: the registry holds objects here).\<close>

fun Object_keys :: "jsval \<Rightarrow> error + string list" where
  "Object_keys JUndefined = Inl TypeError"
| "Object_keys JNull = Inl TypeError"
| "Object_keys (JObj ps) = Inr (map fst ps)"
| "Object_keys v = Inr []"

text \<open>The string of a value already known to be one (used only behind a
  \<^verbatim>\<open>typeof ... === 'string'\<close> guard).\<close>

fun str_of :: "jsval \<Rightarrow> string" where
  "str_of (JStr s) = s"
| "str_of v = []"

section \<open>The parameter check of \<^verbatim>\<open>comInverter\<close>\<close>

text \<open>
  \<^verbatim>\<open>getInverterSetting\<close> and \<^verbatim>\<open>setInverterSetting\<close> build the
  \<^verbatim>\<open>paramorgi\<close> object; \<^verbatim>\<open>val\<close> is absent (\<^verbatim>\<open>undefined\<close>) in a read.
\<close>

record paramorgi =
  url :: object
  val :: jsval
  action :: jsval
  base :: jsval
  func :: string

definition getInverterSetting_param :: "string \<Rightarrow> jsval \<Rightarrow> paramorgi" where
  "getInverterSetting_param fn serialNum =
     \<lparr>url = [(''action'', JStr ''''), (''paramId'', JStr ''''), (''serialNum'', serialNum),
             (''startAddr'', JNum (- 1)), (''endAddr'', JNum (- 1))],
      val = JUndefined, action = JStr ''readParam'', base = JStr ''comInverter'', func = fn\<rparr>"

definition setInverterSetting_param :: "string \<Rightarrow> jsval \<Rightarrow> jsval \<Rightarrow> paramorgi" where
  "setInverterSetting_param fn serialNum v =
     \<lparr>url = [(''action'', JStr ''''), (''serialNum'', serialNum), (''type'', JStr '''')],
      val = v, action = JStr ''writeParam'', base = JStr ''comInverter'', func = fn\<rparr>"

text \<open>
  The modules \<^verbatim>\<open>./growatttype\<close> and \<^verbatim>\<open>./parsein\<close> are tables the function
  reads; they are parameters here. \<open>GT\<close> is the exported object of
  \<^verbatim>\<open>growatttype\<close>. \<open>PI k\<close> is \<^verbatim>\<open>PARSEIN[k]\<close>: \<open>None\<close> when that
  property is not a function (calling it throws a TypeError), otherwise the
  function, which returns the pair \<^verbatim>\<open>[converted value, ok]\<close>.
\<close>

type_synonym parsein = "jsval \<Rightarrow> (jsval \<Rightarrow> jsval \<times> bool) option"

text \<open>Lines 863--875: the body of \<^verbatim>\<open>Object.keys(p).forEach(name => ...)\<close>. A
  throw leaves the loop. The destructuring assignment stores the converted
  value in \<^verbatim>\<open>param[name]\<close> before \<^verbatim>\<open>ok\<close> is looked at.\<close>

fun params_loop ::
  "parsein \<Rightarrow> string \<Rightarrow> string \<Rightarrow> jsval \<Rightarrow> jsval \<Rightarrow> string list \<Rightarrow> object \<Rightarrow> error + object" where
  "params_loop PI type fn p v [] param = Inr param"
| "params_loop PI type fn p v (name # names) param =
     bnd (get v name) (\<lambda>x.
       bnd (get p name) (\<lambda>pn.
         if typeof x \<noteq> ''undefined'' then
           bnd (get pn ''type'') (\<lambda>t.
             case PI t of
               None \<Rightarrow> Inl TypeError
             | Some f \<Rightarrow>
                 (case f x of (r, ok) \<Rightarrow>
                    if \<not> ok then bnd (get pn ''name'') (\<lambda>n. Inl (IncorrectValue n t fn type))
                    else params_loop PI type fn p v names (setp param name r)))
         else bnd (get pn ''name'') (\<lambda>n. Inl (MissingValue n fn type))))"

text \<open>Lines 846--852: the action code of the device type.\<close>

definition check_action :: "jsval \<Rightarrow> string \<Rightarrow> paramorgi \<Rightarrow> object \<Rightarrow> error + object" where
  "check_action gt type paramorgi param =
     (if typeof (action paramorgi) = ''string'' then
        (if typeof gt = ''object'' then
           bnd (get gt (str_of (action paramorgi))) (\<lambda>a.
             if typeof a = ''string'' then Inr (setp param ''action'' a)
             else Inl (UnknownAction (action paramorgi) type))
         else Inl (UnknownAction (action paramorgi) type))
      else Inr param)"

text \<open>Line 853: the lookup of the function descriptor \<^verbatim>\<open>b\<close>. The conjunction
  is evaluated left to right and stops at the first false operand.\<close>

definition find_func :: "jsval \<Rightarrow> string \<Rightarrow> paramorgi \<Rightarrow> error + jsval" where
  "find_func gt type paramorgi =
     (if typeof (base paramorgi) = ''string'' then
        bnd (get gt (str_of (base paramorgi))) (\<lambda>gb.
          if typeof gb = ''object'' then
            bnd (get gb (func paramorgi)) (\<lambda>b.
              if typeof b = ''object'' then Inr b
              else Inl (UnknownFunction (func paramorgi) type))
          else Inl (UnknownFunction (func paramorgi) type))
      else Inl (UnknownFunction (func paramorgi) type))"

text \<open>Lines 855--858: a request that carries a \<^verbatim>\<open>paramId\<close> field (a read)
  takes the descriptor's \<^verbatim>\<open>paramId\<close> and its result parser.\<close>

definition check_paramId :: "jsval \<Rightarrow> object \<Rightarrow> error + object \<times> jsval" where
  "check_paramId b param =
     (if typeof (getp param ''paramId'') \<noteq> ''undefined'' then
        bnd (get b ''paramId'') (\<lambda>pid.
          if typeof pid = ''string'' then
            bnd (get b ''parseRet'') (\<lambda>pr. Inr (setp param ''paramId'' pid, pr))
          else Inr (param, JNull))
      else Inr (param, JNull))"

text \<open>Lines 859--877: a request that carries a \<^verbatim>\<open>type\<close> field (a write) takes
  the descriptor's \<^verbatim>\<open>type\<close> and the converted values of the declared
  parameters.\<close>

definition check_type ::
  "parsein \<Rightarrow> string \<Rightarrow> paramorgi \<Rightarrow> jsval \<Rightarrow> object \<Rightarrow> error + object" where
  "check_type PI type paramorgi b param =
     (if typeof (getp param ''type'') \<noteq> ''undefined'' then
        bnd (get b ''type'') (\<lambda>ty.
          if typeof ty = ''string'' then
            (let param' = setp param ''type'' ty in
             if typeof (val paramorgi) = ''object'' then
               bnd (get b ''param'') (\<lambda>p.
                 if typeof p = ''object'' then
                   bnd (Object_keys p) (\<lambda>names.
                     params_loop PI type (func paramorgi) p (val paramorgi) names param')
                 else Inr param')
             else Inr param')
          else Inr param)
      else Inr param)"

text \<open>Lines 841--887: the \<^verbatim>\<open>try\<close> block. \<open>Inl e\<close> is \<^verbatim>\<open>reject(e); return\<close>;
  \<open>Inr (param, checkRet)\<close> is the request object (\<^verbatim>\<open>paramorgi.url\<close>, updated
  in place) and the result parser that go on to the queue.\<close>

definition comInverter_check ::
  "object \<Rightarrow> parsein \<Rightarrow> string \<Rightarrow> paramorgi \<Rightarrow> error + object \<times> jsval" where
  "comInverter_check GT PI type paramorgi =
     (let gt = getp GT type in
      bnd (check_action gt type paramorgi (url paramorgi)) (\<lambda>param1.
        bnd (find_func gt type paramorgi) (\<lambda>b.
          bnd (check_paramId b param1) (\<lambda>(param2, checkRet).
            bnd (check_type PI type paramorgi b param2) (\<lambda>param3.
              Inr (param3, checkRet))))))"

section \<open>The command queue\<close>

text \<open>
  One call of \<^verbatim>\<open>comInverter\<close> that passed the check: the promise it created
  (numbered in order of creation), the promises of the calls that wait for its
  outcome (a retry is a nested call whose \<^verbatim>\<open>.then\<close>/\<^verbatim>\<open>.catch\<close> pass the
  outcome to \<^verbatim>\<open>qresolve\<close>/\<^verbatim>\<open>qreject\<close> of the caller; innermost first), and
  the variables its continuation closes over.
\<close>

record entry =
  e_pid :: nat
  e_stack :: "nat list"
  e_type :: string
  e_paramorgi :: paramorgi
  e_checkRet :: jsval

datatype settle = Resolved jsval | Rejected error

text \<open>What an observer sees: a call of \<^verbatim>\<open>resolve\<close>/\<^verbatim>\<open>reject\<close> of a promise, a
  grant of the execution slot, a request handed to the transport with its
  fields.\<close>

datatype obs =
    Settled nat settle
  | Granted nat
  | Posted nat object

record client =
  connected :: bool
  queue :: "entry list"
  pending :: "entry list"
  trace :: "obs list"
  next_pid :: nat

text \<open>The constructor (lines 71--72): an empty queue, not connected.\<close>

definition init :: client where
  "init = \<lparr>connected = False, queue = [], pending = [], trace = [], next_pid = 0\<rparr>"

text \<open>
  Modelled from the spec: the module \<^verbatim>\<open>./queue\<close> (class \<^verbatim>\<open>QUEUE\<close> with
  \<^verbatim>\<open>addTask\<close> and \<^verbatim>\<open>taskFinished\<close>) is missing from the sources. Following
  section 4.3 of the specification, \<^verbatim>\<open>addTask\<close> is \<open>enqueue\<close>: it appends
  the entry to the tail of the waiting list and, if nothing is executing (the
  list was empty), grants the head the slot at once. \<^verbatim>\<open>taskFinished\<close> is
  \<open>complete()\<close>: it removes the head entry and, if the list is non-empty,
  grants the new head the slot. The second component of the result is the
  entry that has just been granted the slot, if any: the promise returned by
  \<^verbatim>\<open>addTask\<close> to that entry's call is fulfilled.
\<close>

definition addTask :: "entry \<Rightarrow> client \<Rightarrow> client \<times> entry option" where
  "addTask e s =
     (if queue s = [] then
        (s\<lparr>queue := [e], trace := trace s @ [Granted (e_pid e)]\<rparr>, Some e)
      else (s\<lparr>queue := queue s @ [e]\<rparr>, None))"

definition taskFinished :: "client \<Rightarrow> client \<times> entry option" where
  "taskFinished s =
     (case queue s of
        [] \<Rightarrow> (s, None)
      | h # rest \<Rightarrow>
          (case rest of
             [] \<Rightarrow> (s\<lparr>queue := []\<rparr>, None)
           | r # rest' \<Rightarrow> (s\<lparr>queue := rest, trace := trace s @ [Granted (e_pid r)]\<rparr>, Some r)))"

text \<open>Work that a step leaves for later turns of the event loop: the code of
  \<^verbatim>\<open>comInverter\<close> after \<^verbatim>\<open>await this.queue.addTask(...)\<close> for an entry that has
  the slot, and the \<^verbatim>\<open>.then\<close>/\<^verbatim>\<open>.catch\<close> reactions (lines 904--909) of the
  callers that wait for a settled retry.\<close>

datatype job =
    Continue entry
  | React "nat list" settle

definition granted_job :: "entry option \<Rightarrow> job list" where
  "granted_job g = (case g of None \<Rightarrow> [] | Some r \<Rightarrow> [Continue r])"

text \<open>\<^verbatim>\<open>resolve\<close>/\<^verbatim>\<open>reject\<close> of the promise \<open>p\<close>: the call is recorded; the
  reactions of the callers \<open>ps\<close> waiting on \<open>p\<close> are scheduled.\<close>

definition settle_promise :: "nat \<Rightarrow> nat list \<Rightarrow> settle \<Rightarrow> client \<Rightarrow> client \<times> job list" where
  "settle_promise p ps out s = (s\<lparr>trace := trace s @ [Settled p out]\<rparr>, [React ps out])"

text \<open>
  Modelled from the spec: \<^verbatim>\<open>qresolve\<close>/\<^verbatim>\<open>qreject\<close>, the pair that
  \<^verbatim>\<open>addTask(resolve, reject)\<close> hands to the call once it has the slot. The
  executor calls nothing else on its terminal branches, and the specification
  has every terminal branch settle the command and call \<open>complete()\<close>; so
  the handle settles the promise of the call and then calls
  \<^verbatim>\<open>taskFinished\<close>.
\<close>

definition qsettle :: "nat \<Rightarrow> nat list \<Rightarrow> settle \<Rightarrow> client \<Rightarrow> client \<times> job list" where
  "qsettle p ps out s =
     (case settle_promise p ps out s of (s1, js1) \<Rightarrow>
        (case taskFinished s1 of (s2, g) \<Rightarrow> (s2, js1 @ granted_job g)))"

text \<open>Lines 893--896: the request goes to the transport.\<close>

definition post :: "entry \<Rightarrow> client \<Rightarrow> client" where
  "post e s =
     s\<lparr>pending := pending s @ [e],
       trace := trace s @ [Posted (e_pid e) (url (e_paramorgi e))]\<rparr>"

fun job_weight :: "job \<Rightarrow> nat" where
  "job_weight (Continue e) = length (e_stack e) + 2"
| "job_weight (React ps out) = length ps + 1"

definition waiting_weight :: "client \<Rightarrow> nat" where
  "waiting_weight s = sum_list (map (\<lambda>e. length (e_stack e) + 3) (tl (queue s)))"

text \<open>
  The pending jobs run to the end before the next event. Lines 889--892: an
  entry that gets the slot while the session is not connected is rejected
  through \<^verbatim>\<open>qreject\<close>; otherwise its request is posted. A reaction calls
  \<^verbatim>\<open>qresolve\<close>/\<^verbatim>\<open>qreject\<close> of the innermost waiting caller, whose own promise
  then settles.
\<close>

function drain :: "job list \<Rightarrow> client \<Rightarrow> client" where
  "drain [] s = s"
| "drain (Continue e # js) s =
     (if \<not> connected s then
        drain (js @ snd (qsettle (e_pid e) (e_stack e) (Rejected NotConnected) s))
              (fst (qsettle (e_pid e) (e_stack e) (Rejected NotConnected) s))
      else drain js (post e s))"
| "drain (React [] out # js) s = drain js s"
| "drain (React (q # qs) out # js) s =
     drain (js @ snd (qsettle q qs out s)) (fst (qsettle q qs out s))"
  by pat_completeness auto
termination
  by (relation "measure (\<lambda>(js, s). sum_list (map job_weight js) + waiting_weight s)")
     (simp_all add: post_def qsettle_def settle_promise_def taskFinished_def granted_job_def
        waiting_weight_def split: list.splits)

section \<open>The executor: \<^verbatim>\<open>comInverter\<close>\<close>

text \<open>
  The environment of a client: the two tables, and the behaviour of the
  function values stored in the registry as result parsers. The source calls
  \<^verbatim>\<open>checkRet(res.data, qresolve)\<close>; following the specification a parser is a
  pure function from the raw payload to a result or an error, so
  \<open>parseRet f data = Inr v\<close> stands for "function \<open>f\<close> calls
  \<^verbatim>\<open>qresolve(v)\<close> once" and \<open>Inl x\<close> for "function \<open>f\<close> throws \<open>x\<close>".
\<close>

record env =
  GROWATTTYPE :: object
  PARSEIN :: parsein
  parseRet :: "nat \<Rightarrow> jsval \<Rightarrow> jsval + jsval"

text \<open>What the promise of \<^verbatim>\<open>axios.post\<close> yields: a response with
  \<^verbatim>\<open>res.data\<close> and \<^verbatim>\<open>res.request.path\<close>, or a rejection with an error
  value.\<close>

datatype response =
    Reply jsval string
  | Failure jsval

text \<open>A property of a value that is known to be truthy (never \<^verbatim>\<open>undefined\<close> or
  \<^verbatim>\<open>null\<close>, so the read cannot throw).\<close>

definition field :: "jsval \<Rightarrow> string \<Rightarrow> jsval" where
  "field v k = (case get v k of Inl e \<Rightarrow> JUndefined | Inr x \<Rightarrow> x)"

text \<open>Lines 839--888: a call creates its promise, runs the check, and either
  rejects at once or hands itself to the queue. \<open>ps\<close> are the promises
  waiting for this call (empty for a call from outside).\<close>

definition comInverter ::
  "env \<Rightarrow> string \<Rightarrow> paramorgi \<Rightarrow> nat list \<Rightarrow> client \<Rightarrow> client \<times> job list" where
  "comInverter E type paramorgi ps s =
     (let p = next_pid s; s1 = s\<lparr>next_pid := Suc p\<rparr> in
      case comInverter_check (GROWATTTYPE E) (PARSEIN E) type paramorgi of
        Inl e \<Rightarrow> settle_promise p ps (Rejected e) s1
      | Inr (param, checkRet) \<Rightarrow>
          (case addTask \<lparr>e_pid = p, e_stack = ps, e_type = type,
                         e_paramorgi = paramorgi\<lparr>url := param\<rparr>, e_checkRet = checkRet\<rparr> s1 of
             (s2, g) \<Rightarrow> (s2, granted_job g)))"

text \<open>Lines 897--930: the reactions to the outcome of the request of entry
  \<open>e\<close>. On an acknowledgment with an empty \<^verbatim>\<open>msg\<close> the code calls
  \<^verbatim>\<open>this.queue.taskFinished()\<close> and then \<^verbatim>\<open>this.comInverter(type, paramorgi,
  checkRet)\<close> again, with the same (updated) \<^verbatim>\<open>paramorgi\<close> object; the third
  argument is not a parameter of \<^verbatim>\<open>comInverter\<close> and is dropped.\<close>

definition comInverter_response ::
  "env \<Rightarrow> entry \<Rightarrow> response \<Rightarrow> client \<Rightarrow> client \<times> job list" where
  "comInverter_response E e res s =
     (let p = e_pid e; ps = e_stack e; checkRet = e_checkRet e in
      case res of
        Failure x \<Rightarrow> qsettle p ps (Rejected (Thrown x)) s
      | Reply data path \<Rightarrow>
          if truthy data \<and> typeof (field data ''success'') \<noteq> ''undefined'' then
            if typeof (field data ''msg'') \<noteq> ''undefined'' \<and> field data ''msg'' = JStr [] then
              (case taskFinished s of (s1, g) \<Rightarrow>
                 (case comInverter E (e_type e) (e_paramorgi e) (p # ps) s1 of
                    (s2, js) \<Rightarrow> (s2, granted_job g @ js)))
            else if typeof checkRet \<noteq> ''undefined'' \<and> checkRet \<noteq> JNull then
              (case checkRet of
                 JFun f \<Rightarrow>
                   (case parseRet E f data of
                      Inr v \<Rightarrow> qsettle p ps (Resolved v) s
                    | Inl x \<Rightarrow> qsettle p ps (Rejected (Thrown x)) s)
               | _ \<Rightarrow> qsettle p ps (Rejected TypeError) s)
            else qsettle p ps (Resolved data) s
          else if truthy data then qsettle p ps (Rejected (PayloadError data)) s
          else if sublist ''errorMess'' path then qsettle p ps (Rejected (UnexpectedResponse path)) s
          else qsettle p ps (Rejected FatalResponse) s)"

text \<open>
  The events of a client's life: the session flag is set from outside this
  subsystem (login and logout, the failure handlers of the other requests);
  the application calls \<^verbatim>\<open>getInverterSetting\<close>/\<^verbatim>\<open>setInverterSetting\<close> (that
  is, \<^verbatim>\<open>comInverter\<close>) one or more times in one run of synchronous code; the
  transport answers the request posted for the call with promise \<open>p\<close>.
  After each event the pending jobs run to the end.
\<close>

datatype event =
    Session bool
  | Call "(string \<times> paramorgi) list"
  | Response nat response

fun calls :: "env \<Rightarrow> (string \<times> paramorgi) list \<Rightarrow> client \<Rightarrow> client \<times> job list" where
  "calls E [] s = (s, [])"
| "calls E ((type, paramorgi) # cs) s =
     (case comInverter E type paramorgi [] s of (s1, js1) \<Rightarrow>
        (case calls E cs s1 of (s2, js2) \<Rightarrow> (s2, js1 @ js2)))"

definition step :: "env \<Rightarrow> event \<Rightarrow> client \<Rightarrow> client" where
  "step E ev s =
     (case ev of
        Session b \<Rightarrow> s\<lparr>connected := b\<rparr>
      | Call cs \<Rightarrow> (case calls E cs s of (s1, js) \<Rightarrow> drain js s1)
      | Response p res \<Rightarrow>
          (case find (\<lambda>e. e_pid e = p) (pending s) of
             None \<Rightarrow> s
           | Some e \<Rightarrow>
               (case comInverter_response E e res (s\<lparr>pending := remove1 e (pending s)\<rparr>) of
                  (s1, js) \<Rightarrow> drain js s1)))"

fun run :: "env \<Rightarrow> event list \<Rightarrow> client \<Rightarrow> client" where
  "run E [] s = s"
| "run E (ev # evs) s = run E evs (step E ev s)"

section \<open>Reading a trace\<close>

text \<open>The outcomes passed to \<^verbatim>\<open>resolve\<close>/\<^verbatim>\<open>reject\<close> of promise \<open>p\<close>, in order;
  the promises that were granted the slot; the promises whose request was
  posted.\<close>

fun settles :: "nat \<Rightarrow> obs list \<Rightarrow> settle list" where
  "settles p [] = []"
| "settles p (Settled q out # tr) = (if q = p then out # settles p tr else settles p tr)"
| "settles p (Granted q # tr) = settles p tr"
| "settles p (Posted q param # tr) = settles p tr"

fun granted :: "obs list \<Rightarrow> nat list" where
  "granted [] = []"
| "granted (Granted q # tr) = q # granted tr"
| "granted (Settled q out # tr) = granted tr"
| "granted (Posted q param # tr) = granted tr"

fun posted :: "obs list \<Rightarrow> nat list" where
  "posted [] = []"
| "posted (Posted q param # tr) = q # posted tr"
| "posted (Settled q out # tr) = posted tr"
| "posted (Granted q # tr) = posted tr"

text \<open>All calls of \<^verbatim>\<open>resolve\<close>/\<^verbatim>\<open>reject\<close>, in order.\<close>

fun settled :: "obs list \<Rightarrow> (nat \<times> settle) list" where
  "settled [] = []"
| "settled (Settled q out # tr) = (q, out) # settled tr"
| "settled (Granted q # tr) = settled tr"
| "settled (Posted q param # tr) = settled tr"

text \<open>The promises an entry or a job will settle: its own and those of the
  callers waiting for it. The owners of a state are the promises held by the
  entries that wait without the slot, by the posted requests and by the
  pending jobs (the entry at the head of the queue has the slot: it is a posted
  request or a pending job).\<close>

definition handles :: "entry \<Rightarrow> nat list" where
  "handles e = e_pid e # e_stack e"

fun job_handles :: "job \<Rightarrow> nat list" where
  "job_handles (Continue e) = handles e"
| "job_handles (React ps out) = ps"

definition owners :: "job list \<Rightarrow> client \<Rightarrow> nat list" where
  "owners js s =
     concat (map handles (tl (queue s))) @ concat (map handles (pending s))
       @ concat (map job_handles js)"

section \<open>An example registry\<close>

text \<open>A small registry in the shape \<^verbatim>\<open>comInverter\<close> and
  \<^verbatim>\<open>getInverterCommunication\<close> read: one device type with its two action
  codes and one function that can be read (\<^verbatim>\<open>paramId\<close>, \<^verbatim>\<open>parseRet\<close>) and
  written (\<^verbatim>\<open>type\<close>, \<^verbatim>\<open>param\<close>). It serves the concrete runs below.\<close>

definition example_params :: object where
  "example_params =
     [(''param1'', JObj [(''name'', JStr ''Active power rate''), (''type'', JStr ''INUM_0_100'')]),
      (''param2'', JObj [(''name'', JStr ''Store''), (''type'', JStr ''BOOL'')])]"

definition example_function :: object where
  "example_function =
     [(''name'', JStr ''Active power rate''),
      (''type'', JStr ''pv_active_p_rate''),
      (''paramId'', JStr ''pv_active_p_rate''),
      (''parseRet'', JFun 0),
      (''param'', JObj example_params)]"

definition example_descriptor :: jsval where
  "example_descriptor = JObj example_function"

definition example_type :: object where
  "example_type =
     [(''readParam'', JStr ''readMinParam''),
      (''writeParam'', JStr ''tlxSet''),
      (''comInverter'', JObj [(''pvActivePRate'', example_descriptor)])]"

definition example_registry :: object where
  "example_registry = [(''tlx'', JObj example_type)]"

definition example_parsein :: parsein where
  "example_parsein t =
     (if t = JStr ''INUM_0_100'' then
        Some (\<lambda>x. case x of JNum n \<Rightarrow> (JNum n, 0 \<le> n \<and> n \<le> 100) | _ \<Rightarrow> (x, False))
      else if t = JStr ''BOOL'' then
        Some (\<lambda>x. case x of JBool b \<Rightarrow> (JNum (if b then 1 else 0), True) | _ \<Rightarrow> (x, False))
      else None)"

text \<open>The example parser hands on the \<^verbatim>\<open>msg\<close> of the payload.\<close>

definition example_env :: env where
  "example_env =
     \<lparr>GROWATTTYPE = example_registry, PARSEIN = example_parsein,
      parseRet = (\<lambda>f data. Inr (field data ''msg''))\<rparr>"

definition example_write :: "jsval \<Rightarrow> string \<times> paramorgi" where
  "example_write v = (''tlx'', setInverterSetting_param ''pvActivePRate'' (JStr ''SN1'') v)"

definition example_values :: jsval where
  "example_values = JObj [(''param1'', JNum 50), (''param2'', JBool True)]"

definition example_read :: "string \<times> paramorgi" where
  "example_read = (''tlx'', getInverterSetting_param ''pvActivePRate'' (JStr ''SN1''))"

text \<open>Two acknowledgments with a defined \<^verbatim>\<open>success\<close>: one with an empty
  \<^verbatim>\<open>msg\<close>, one with a completion message.\<close>

definition payload_unfinished :: jsval where
  "payload_unfinished = JObj [(''success'', JBool True), (''msg'', JStr [])]"

definition payload_done :: jsval where
  "payload_done = JObj [(''success'', JBool True), (''msg'', JStr ''inv_set_success'')]"

definition ack_unfinished :: response where
  "ack_unfinished = Reply payload_unfinished ''/tcpSet.do''"

definition ack_done :: response where
  "ack_done = Reply payload_done ''/tcpSet.do''"


text \<open>Values for a write with one name the function does not declare.\<close>

definition example_extra :: object where
  "example_extra = [(''param1'', JNum 50), (''param2'', JBool True), (''comment'', JStr ''noon'')]"

definition example_request :: paramorgi where
  "example_request = setInverterSetting_param ''pvActivePRate'' (JStr ''SN1'') (JObj example_extra)"

definition example_fields :: object where
  "example_fields =
     [(''action'', JStr ''tlxSet''), (''serialNum'', JStr ''SN1''),
      (''type'', JStr ''pv_active_p_rate''), (''param1'', JNum 50), (''param2'', JNum 1)]"



section \<open>The branches of the response handler\<close>

text \<open>The conditions the handler tests on \<^verbatim>\<open>res.data\<close>, named. Line 899: the
  payload is truthy and has a defined \<^verbatim>\<open>success\<close> (whatever its value).
  Line 901: in addition \<^verbatim>\<open>msg\<close> is the empty string: accepted, not yet
  finished. Otherwise the acknowledgment is terminal. Line 915: a truthy
  payload without a \<^verbatim>\<open>success\<close> field is the server's rejection.\<close>

definition acknowledged :: "jsval \<Rightarrow> bool" where
  "acknowledged data = (truthy data \<and> typeof (field data ''success'') \<noteq> ''undefined'')"

definition not_yet_finished :: "jsval \<Rightarrow> bool" where
  "not_yet_finished data =
     (acknowledged data \<and> typeof (field data ''msg'') \<noteq> ''undefined''
        \<and> field data ''msg'' = JStr [])"



definition unfinished :: "response \<Rightarrow> bool" where
  "unfinished res = (case res of Reply data path \<Rightarrow> not_yet_finished data | Failure x \<Rightarrow> False)"

text \<open>Lines 910--914: what a terminal acknowledgment settles the command
  with, given the parser \<^verbatim>\<open>checkRet\<close> found by the check.\<close>

definition parsed :: "env \<Rightarrow> jsval \<Rightarrow> jsval \<Rightarrow> settle" where
  "parsed E checkRet data =
     (if typeof checkRet \<noteq> ''undefined'' \<and> checkRet \<noteq> JNull then
        (case checkRet of
           JFun f \<Rightarrow>
             (case parseRet E f data of
                Inr v \<Rightarrow> Resolved v
              | Inl x \<Rightarrow> Rejected (Thrown x))
         | _ \<Rightarrow> Rejected TypeError)
      else Resolved data)"

text \<open>What every response other than "not yet finished" settles the command
  with.\<close>

definition outcome :: "env \<Rightarrow> jsval \<Rightarrow> response \<Rightarrow> settle" where
  "outcome E checkRet res =
     (case res of
        Failure x \<Rightarrow> Rejected (Thrown x)
      | Reply data path \<Rightarrow>
          if acknowledged data then parsed E checkRet data
          else if truthy data then Rejected (PayloadError data)
          else if sublist ''errorMess'' path then Rejected (UnexpectedResponse path)
          else Rejected FatalResponse)"

section \<open>Invariants of a client\<close>

text \<open>The balance of a promise: the number of its owners plus the number of
  times it has been settled. Conservation: the balance of every promise created
  so far is one (it has been settled once, or has exactly one owner that will
  settle it), and that of a promise not yet created is zero.\<close>

definition balance :: "nat \<Rightarrow> job list \<Rightarrow> client \<Rightarrow> nat" where
  "balance p js s = count_list (owners js s) p + length (settles p (trace s))"

definition conserved :: "job list \<Rightarrow> client \<Rightarrow> bool" where
  "conserved js s =
     (\<forall>p. balance p js s = (if p < next_pid s then 1 else 0))"

text \<open>The entry at the head of the queue has the slot: its request is posted,
  or its continuation is about to run.\<close>

definition slot_held :: "job list \<Rightarrow> client \<Rightarrow> bool" where
  "slot_held js s =
     (queue s = [] \<or> hd (queue s) \<in> set (pending s) \<or> Continue (hd (queue s)) \<in> set js)"





text \<open>A call passes the check.\<close>

definition passes :: "env \<Rightarrow> string \<times> paramorgi \<Rightarrow> bool" where
  "passes E c = (case comInverter_check (GROWATTTYPE E) (PARSEIN E) (fst c) (snd c) of
                   Inl e \<Rightarrow> False | Inr r \<Rightarrow> True)"

text \<open>The entries that a run of calls from outside hands to the queue, all of
  which pass the check; \<open>n\<close> is the number of the first promise.\<close>

fun entries_of :: "env \<Rightarrow> nat \<Rightarrow> (string \<times> paramorgi) list \<Rightarrow> entry list" where
  "entries_of E n [] = []"
| "entries_of E n ((type, paramorgi) # cs) =
     (case comInverter_check (GROWATTTYPE E) (PARSEIN E) type paramorgi of
        Inl e \<Rightarrow> entries_of E (Suc n) cs
      | Inr (param, checkRet) \<Rightarrow>
          \<lparr>e_pid = n, e_stack = [], e_type = type,
           e_paramorgi = paramorgi\<lparr>url := param\<rparr>, e_checkRet = checkRet\<rparr>
            # entries_of E (Suc n) cs)"

text \<open>A stretch of trace in which nothing is posted and every grant of the
  slot is matched by a continuation among the jobs.\<close>

definition announces :: "obs list \<Rightarrow> job list \<Rightarrow> bool" where
  "announces t js =
     (posted t = [] \<and> (\<forall>q \<in> set (granted t). \<exists>e. Continue e \<in> set js \<and> e_pid e = q))"

text \<open>A stretch of trace in which nothing is posted and every entry that is
  granted the slot is rejected as not connected.\<close>

definition refused :: "obs list \<Rightarrow> bool" where
  "refused t =
     (posted t = [] \<and> (\<forall>q \<in> set (granted t). Settled q (Rejected NotConnected) \<in> set t))"

section \<open>Notions for the claims about the check\<close>

text \<open>The parameter names the descriptor of the function declares: the keys of
  \<^verbatim>\<open>b.param\<close> (none if the function is unknown).\<close>

definition declared :: "object \<Rightarrow> string \<Rightarrow> paramorgi \<Rightarrow> string list" where
  "declared GT type paramorgi =
     (case find_func (getp GT type) type paramorgi of
        Inl e \<Rightarrow> []
      | Inr b \<Rightarrow>
          (case get b ''param'' of
             Inl e \<Rightarrow> []
           | Inr p \<Rightarrow> (case Object_keys p of Inl e \<Rightarrow> [] | Inr names \<Rightarrow> names)))"

text \<open>A run of assignments \<^verbatim>\<open>param[name] = value\<close>; the value that one turn of
  the loop over the declared parameters assigns, or the error it throws; and
  the assignments the whole loop makes when no value is missing or incorrect
  (they do not depend on the request object).\<close>

fun assign :: "(string \<times> jsval) list \<Rightarrow> object \<Rightarrow> object" where
  "assign [] param = param"
| "assign ((name, r) # rs) param = assign rs (setp param name r)"

definition convert1 ::
  "parsein \<Rightarrow> string \<Rightarrow> string \<Rightarrow> jsval \<Rightarrow> jsval \<Rightarrow> string \<Rightarrow> error + jsval" where
  "convert1 PI type fn p v name =
     bnd (get v name) (\<lambda>x.
       bnd (get p name) (\<lambda>pn.
         if typeof x \<noteq> ''undefined'' then
           bnd (get pn ''type'') (\<lambda>t.
             case PI t of
               None \<Rightarrow> Inl TypeError
             | Some f \<Rightarrow>
                 (case f x of (r, ok) \<Rightarrow>
                    if \<not> ok then bnd (get pn ''name'') (\<lambda>n. Inl (IncorrectValue n t fn type))
                    else Inr r))
         else bnd (get pn ''name'') (\<lambda>n. Inl (MissingValue n fn type))))"

fun converted ::
  "parsein \<Rightarrow> string \<Rightarrow> string \<Rightarrow> jsval \<Rightarrow> jsval \<Rightarrow> string list
     \<Rightarrow> error + (string \<times> jsval) list" where
  "converted PI type fn p v [] = Inr []"
| "converted PI type fn p v (name # names) =
     bnd (convert1 PI type fn p v name) (\<lambda>r.
       bnd (converted PI type fn p v names) (\<lambda>rs. Inr ((name, r) # rs)))"








section \<open>The registry as shared objects\<close>

text \<open>
  \<^verbatim>\<open>getInverterCommunication\<close> hands objects to its caller. Whether a write to
  one of them is a write to the registry depends on which objects are shared, so
  here a value is a primitive or a reference into a store of objects, and an
  object lists its own enumerable properties in enumeration order. An array is
  an object with its index properties; \<^verbatim>\<open>length\<close> and the members inherited
  from a prototype are outside the model.
\<close>

datatype hval = HUndefined | HNull | HBool bool | HNum int | HStr string | HFun nat | HRef nat

type_synonym hobject = "(string \<times> hval) list"

type_synonym store = "hobject list"

definition obj :: "store \<Rightarrow> nat \<Rightarrow> hobject" where
  "obj h a = (if a < length h then h ! a else [])"

fun htypeof :: "hval \<Rightarrow> string" where
  "htypeof HUndefined = ''undefined''"
| "htypeof HNull = ''object''"
| "htypeof (HBool b) = ''boolean''"
| "htypeof (HNum n) = ''number''"
| "htypeof (HStr s) = ''string''"
| "htypeof (HFun f) = ''function''"
| "htypeof (HRef a) = ''object''"

fun htruthy :: "hval \<Rightarrow> bool" where
  "htruthy HUndefined = False"
| "htruthy HNull = False"
| "htruthy (HBool b) = b"
| "htruthy (HNum n) = (n \<noteq> 0)"
| "htruthy (HStr s) = (s \<noteq> [])"
| "htruthy (HFun f) = True"
| "htruthy (HRef a) = True"

definition hgetp :: "hobject \<Rightarrow> string \<Rightarrow> hval" where
  "hgetp ps k = (case map_of ps k of None \<Rightarrow> HUndefined | Some v \<Rightarrow> v)"

fun hsetp :: "hobject \<Rightarrow> string \<Rightarrow> hval \<Rightarrow> hobject" where
  "hsetp [] k v = [(k, v)]"
| "hsetp ((k', v') # ps) k v = (if k' = k then (k, v) # ps else (k', v') # hsetp ps k v)"

text \<open>\<^verbatim>\<open>v[k]\<close>, read in the store.\<close>

fun hread :: "store \<Rightarrow> hval \<Rightarrow> string \<Rightarrow> error + hval" where
  "hread h HUndefined k = Inl TypeError"
| "hread h HNull k = Inl TypeError"
| "hread h (HRef a) k = Inr (hgetp (obj h a) k)"
| "hread h v k = Inr HUndefined"

text \<open>\<^verbatim>\<open>Object.keys(v)\<close>; the code calls it on a value whose \<^verbatim>\<open>typeof\<close> is
  \<^verbatim>\<open>'object'\<close>: an object or \<^verbatim>\<open>null\<close>.\<close>

fun hkeys :: "store \<Rightarrow> hval \<Rightarrow> error + string list" where
  "hkeys h HUndefined = Inl TypeError"
| "hkeys h HNull = Inl TypeError"
| "hkeys h (HRef a) = Inr (map fst (obj h a))"
| "hkeys h v = Inr []"

definition hwrite :: "nat \<Rightarrow> string \<Rightarrow> hval \<Rightarrow> store \<Rightarrow> store" where
  "hwrite a k v h = h[a := hsetp (obj h a) k v]"

text \<open>A command runs on the store and returns a value or throws; the store it
  leaves is kept in both cases.\<close>

type_synonym 'a cmd = "store \<Rightarrow> (error + 'a) \<times> store"

definition yield :: "'a \<Rightarrow> 'a cmd" where
  "yield x h = (Inr x, h)"

definition seq :: "'a cmd \<Rightarrow> ('a \<Rightarrow> 'b cmd) \<Rightarrow> 'b cmd" where
  "seq m f h = (case m h of (Inl e, h') \<Rightarrow> (Inl e, h') | (Inr x, h') \<Rightarrow> f x h')"

definition look :: "(store \<Rightarrow> error + 'a) \<Rightarrow> 'a cmd" where
  "look f h = (f h, h)"

text \<open>An object or array literal: a new object, at a new address.\<close>

definition new :: "hobject \<Rightarrow> hval cmd" where
  "new ps h = (Inr (HRef (length h)), h @ [ps])"

text \<open>\<^verbatim>\<open>t[k] = v\<close>. The class body is strict code: the assignment throws when
  \<^verbatim>\<open>t\<close> is not an object.\<close>

fun put :: "hval \<Rightarrow> string \<Rightarrow> hval \<Rightarrow> unit cmd" where
  "put (HRef a) k v h = (Inr (), hwrite a k v h)"
| "put t k v h = (Inl TypeError, h)"

fun show_nat :: "nat \<Rightarrow> string" where
  "show_nat n =
     (if n < 10 then [''0123456789'' ! n]
      else show_nat (n div 10) @ [''0123456789'' ! (n mod 10)])"

declare show_nat.simps [simp del]

text \<open>The own enumerable properties \<^verbatim>\<open>Object.assign\<close> copies from a source:
  those of an object, the characters of a string, none of any other value.\<close>

fun own_props :: "store \<Rightarrow> hval \<Rightarrow> hobject" where
  "own_props h (HRef a) = obj h a"
| "own_props h (HStr s) = map (\<lambda>i. (show_nat i, HStr [s ! i])) [0..<length s]"
| "own_props h v = []"

definition copy_props :: "nat \<Rightarrow> hobject \<Rightarrow> store \<Rightarrow> store" where
  "copy_props t ps h = fold (\<lambda>(k, v). hwrite t k v) ps h"

text \<open>\<^verbatim>\<open>Object.assign(t, v)\<close>: it throws when the target is \<^verbatim>\<open>undefined\<close> or
  \<^verbatim>\<open>null\<close>; a primitive target is wrapped and the wrapper is dropped. The
  values are copied as they are: a property that holds an object is copied as
  the reference to the same object.\<close>

fun Object_assign :: "hval \<Rightarrow> hval \<Rightarrow> unit cmd" where
  "Object_assign HUndefined v h = (Inl TypeError, h)"
| "Object_assign HNull v h = (Inl TypeError, h)"
| "Object_assign (HRef t) v h = (Inr (), copy_props t (own_props h v) h)"
| "Object_assign t v h = (Inr (), h)"

text \<open>\<^verbatim>\<open>ks.forEach(f)\<close>.\<close>

fun forEach :: "('a \<Rightarrow> unit cmd) \<Rightarrow> 'a list \<Rightarrow> unit cmd" where
  "forEach f [] h = (Inr (), h)"
| "forEach f (k # ks) h = (case f k h of (Inl e, h') \<Rightarrow> (Inl e, h') | (Inr u, h') \<Rightarrow> forEach f ks h')"

text \<open>\<^verbatim>\<open>GROWATTTYPE[type].comInverter\<close> and
  \<^verbatim>\<open>GROWATTTYPE[type].comInverter[key]\<close>, read from the registry \<^verbatim>\<open>G\<close> each
  time the source writes them.\<close>

definition functions_of :: "hval \<Rightarrow> string \<Rightarrow> store \<Rightarrow> error + hval" where
  "functions_of G type h = bnd (hread h G type) (\<lambda>gt. hread h gt ''comInverter'')"

definition descriptor_of :: "hval \<Rightarrow> string \<Rightarrow> string \<Rightarrow> store \<Rightarrow> error + hval" where
  "descriptor_of G type key h = bnd (functions_of G type h) (\<lambda>ci. hread h ci key)"

definition member_of :: "hval \<Rightarrow> string \<Rightarrow> string \<Rightarrow> string \<Rightarrow> store \<Rightarrow> error + hval" where
  "member_of G type key m h = bnd (descriptor_of G type key h) (\<lambda>d. hread h d m)"

text \<open>The four statements of the loop body of \<^verbatim>\<open>getInverterCommunication\<close>
  (lines 811 to 819).\<close>

definition set_descriptor :: "hval \<Rightarrow> string \<Rightarrow> hval \<Rightarrow> string \<Rightarrow> unit cmd" where
  "set_descriptor G type ret key =
     seq (look (member_of G type key ''name'')) (\<lambda>nm.
     seq (new []) (\<lambda>p.
     seq (new [(''name'', nm), (''param'', p)]) (\<lambda>d.
     put ret key d)))"

definition copy_param :: "hval \<Rightarrow> string \<Rightarrow> hval \<Rightarrow> string \<Rightarrow> unit cmd" where
  "copy_param G type ret key =
     seq (look (\<lambda>h. bnd (hread h ret key) (\<lambda>d. hread h d ''param''))) (\<lambda>t.
     seq (look (member_of G type key ''param'')) (\<lambda>src.
     Object_assign t src))"

definition copy_isSubread :: "hval \<Rightarrow> string \<Rightarrow> hval \<Rightarrow> string \<Rightarrow> unit cmd" where
  "copy_isSubread G type ret key =
     seq (look (member_of G type key ''isSubread'')) (\<lambda>c.
     if htruthy c then
       seq (look (\<lambda>h. hread h ret key)) (\<lambda>d.
       seq (look (member_of G type key ''isSubread'')) (\<lambda>v.
       put d ''isSubread'' v))
     else yield ())"

definition copy_subRead :: "hval \<Rightarrow> string \<Rightarrow> hval \<Rightarrow> string \<Rightarrow> unit cmd" where
  "copy_subRead G type ret key =
     seq (look (member_of G type key ''subRead'')) (\<lambda>c.
     if htruthy c then
       seq (look (\<lambda>h. hread h ret key)) (\<lambda>d.
       seq (new []) (\<lambda>a.
       seq (put d ''subRead'' a) (\<lambda>u.
       seq (look (\<lambda>h. bnd (hread h ret key) (\<lambda>d. hread h d ''subRead''))) (\<lambda>t.
       seq (look (member_of G type key ''subRead'')) (\<lambda>src.
       Object_assign t src)))))
     else yield ())"

definition describe :: "hval \<Rightarrow> string \<Rightarrow> hval \<Rightarrow> string \<Rightarrow> unit cmd" where
  "describe G type ret key =
     seq (set_descriptor G type ret key) (\<lambda>u.
     seq (copy_param G type ret key) (\<lambda>u.
     seq (copy_isSubread G type ret key) (\<lambda>u.
     copy_subRead G type ret key)))"

definition getInverterCommunication :: "hval \<Rightarrow> string \<Rightarrow> hval cmd" where
  "getInverterCommunication G type =
     seq (new []) (\<lambda>ret.
     seq (look (functions_of G type)) (\<lambda>ci.
     seq (if htypeof ci = ''object'' then
            seq (look (\<lambda>h. bnd (functions_of G type h) (hkeys h))) (forEach (describe G type ret))
          else yield ()) (\<lambda>u.
     yield ret)))"

text \<open>The objects of the returned structure that the operation builds: the map, the
  descriptors it holds, and their \<^verbatim>\<open>param\<close> and \<^verbatim>\<open>subRead\<close>.\<close>

definition refs :: "hval list \<Rightarrow> nat list" where
  "refs vs = concat (map (\<lambda>v. case v of HRef a \<Rightarrow> [a] | _ \<Rightarrow> []) vs)"

definition descriptors :: "store \<Rightarrow> nat \<Rightarrow> nat list" where
  "descriptors h ret = refs (map snd (obj h ret))"

definition returned_parts :: "store \<Rightarrow> nat \<Rightarrow> nat list" where
  "returned_parts h ret =
     ret # descriptors h ret
       @ refs (concat (map (\<lambda>d. [hgetp (obj h d) ''param'', hgetp (obj h d) ''subRead''])
                          (descriptors h ret)))"

text \<open>A store that holds the registry of the example: the two declared parameters
  at addresses 0 and 1, the map of declared parameters at 2, the array of
  functions read along at 3, the function at 4, its map of functions at 5, the
  device type at 6 and the registry at 7.\<close>

definition example_store :: store where
  "example_store =
     [[(''name'', HStr ''Active power rate''), (''type'', HStr ''INUM_0_100'')],
      [(''name'', HStr ''Store''), (''type'', HStr ''BOOL'')],
      [(''param1'', HRef 0), (''param2'', HRef 1)],
      [(''0'', HStr ''pvPowerFactor'')],
      [(''name'', HStr ''Active power rate''),
       (''type'', HStr ''pv_active_p_rate''),
       (''paramId'', HStr ''pv_active_p_rate''),
       (''parseRet'', HFun 0),
       (''param'', HRef 2),
       (''subRead'', HRef 3)],
      [(''pvActivePRate'', HRef 4)],
      [(''readParam'', HStr ''readMinParam''),
       (''writeParam'', HStr ''tlxSet''),
       (''comInverter'', HRef 5)],
      [(''tlx'', HRef 6)]]"


section \<open>Basic facts about the queue and the executor\<close>

lemma qsettle_eq:
  "qsettle p ps out s =
     (case queue s of
        [] \<Rightarrow> (s\<lparr>trace := trace s @ [Settled p out]\<rparr>, [React ps out])
      | h # rest \<Rightarrow>
          (case rest of
             [] \<Rightarrow> (s\<lparr>trace := trace s @ [Settled p out], queue := []\<rparr>, [React ps out])
           | r # rest' \<Rightarrow>
               (s\<lparr>trace := trace s @ [Settled p out, Granted (e_pid r)], queue := rest\<rparr>,
                [React ps out, Continue r])))"
  by (simp add: qsettle_def settle_promise_def taskFinished_def granted_job_def split: list.splits)

lemma qsettle_connected [simp]: "connected (fst (qsettle p ps out s)) = connected s"
  by (simp add: qsettle_eq split: list.splits)

lemma qsettle_next_pid [simp]: "next_pid (fst (qsettle p ps out s)) = next_pid s"
  by (simp add: qsettle_eq split: list.splits)

lemma qsettle_pending [simp]: "pending (fst (qsettle p ps out s)) = pending s"
  by (simp add: qsettle_eq split: list.splits)

lemma qsettle_queue [simp]: "queue (fst (qsettle p ps out s)) = tl (queue s)"
  by (simp add: qsettle_eq split: list.splits)

lemma taskFinished_connected [simp]: "connected (fst (taskFinished s)) = connected s"
  by (simp add: taskFinished_def split: list.splits)

lemma taskFinished_next_pid [simp]: "next_pid (fst (taskFinished s)) = next_pid s"
  by (simp add: taskFinished_def split: list.splits)

lemma taskFinished_pending [simp]: "pending (fst (taskFinished s)) = pending s"
  by (simp add: taskFinished_def split: list.splits)

lemma taskFinished_queue [simp]: "queue (fst (taskFinished s)) = tl (queue s)"
  by (simp add: taskFinished_def split: list.splits)

lemma drain_connected [simp]: "connected (drain js s) = connected s"
  by (induction js s rule: drain.induct) (simp_all add: post_def)

lemma drain_next_pid [simp]: "next_pid (drain js s) = next_pid s"
  by (induction js s rule: drain.induct) (simp_all add: post_def)

lemma comInverter_connected [simp]:
  "connected (fst (comInverter E type po ps s)) = connected s"
  by (simp add: comInverter_def Let_def settle_promise_def addTask_def case_prod_beta
      split: sum.splits)

lemma comInverter_response_connected [simp]:
  "connected (fst (comInverter_response E e res s)) = connected s"
  by (simp add: comInverter_response_def Let_def case_prod_beta
      split: response.splits jsval.splits sum.splits)

lemma step_Response_connected:
  "connected (step E (Response p res) s) = connected s"
  by (simp add: step_def case_prod_beta split: option.splits)



section \<open>Every promise is settled once\<close>

lemma settles_append [simp]: "settles p (a @ b) = settles p a @ settles p b"
  by (induction p a rule: settles.induct) simp_all

lemma count_handles_remove1:
  "e \<in> set xs \<Longrightarrow>
     count_list (concat (map handles (remove1 e xs))) p + count_list (handles e) p
       = count_list (concat (map handles xs)) p"
  by (induction xs) auto


lemma conserved_balance:
  "conserved js s = (\<forall>p. balance p js s = (if p < next_pid s then 1 else 0))"
  by (simp add: conserved_def)

lemma balance_qsettle:
  assumes "job_handles J = p # ps"
  shows "balance q (js @ snd (qsettle p ps out s)) (fst (qsettle p ps out s))
           = balance q (J # js) s"
  using assms
  by (simp add: balance_def owners_def qsettle_eq split: list.splits)

lemma conserved_qsettle:
  assumes "conserved (J # js) s" and "job_handles J = p # ps"
  shows "conserved (js @ snd (qsettle p ps out s)) (fst (qsettle p ps out s))"
  using assms(1) by (simp add: conserved_balance balance_qsettle[OF assms(2)])

lemma balance_taskFinished:
  "balance q (js @ granted_job (snd (taskFinished s))) (fst (taskFinished s)) = balance q js s"
  by (simp add: balance_def owners_def taskFinished_def granted_job_def split: list.splits)

lemma conserved_taskFinished:
  assumes "conserved js s"
  shows "conserved (js @ granted_job (snd (taskFinished s))) (fst (taskFinished s))"
  using assms by (simp add: conserved_balance balance_taskFinished)

lemma post_next_pid [simp]: "next_pid (post e s) = next_pid s"
  by (simp add: post_def)

lemma balance_post: "balance q js (post e s) = balance q (Continue e # js) s"
  by (simp add: balance_def owners_def post_def)

lemma balance_React_Nil: "balance q (React [] out # js) s = balance q js s"
  by (simp add: balance_def owners_def)

lemma conserved_drain: "conserved js s \<Longrightarrow> conserved [] (drain js s)"
proof (induction js s rule: drain.induct)
  case (1 s)
  then show ?case by simp
next
  case (2 e js s)
  show ?case
  proof (cases "connected s")
    case True
    have "conserved js (post e s)"
      using 2(3) by (simp add: conserved_balance balance_post)
    with 2(2) True show ?thesis by simp
  next
    case False
    have "conserved (js @ snd (qsettle (e_pid e) (e_stack e) (Rejected NotConnected) s))
            (fst (qsettle (e_pid e) (e_stack e) (Rejected NotConnected) s))"
      using 2(3) by (rule conserved_qsettle) (simp add: handles_def)
    with 2(1) False show ?thesis by simp
  qed
next
  case (3 out js s)
  have "conserved js s" using 3(2) by (simp add: conserved_balance balance_React_Nil)
  with 3(1) show ?case by simp
next
  case (4 q qs out js s)
  have "conserved (js @ snd (qsettle q qs out s)) (fst (qsettle q qs out s))"
    using 4(2) by (rule conserved_qsettle) simp
  with 4(1) show ?case by simp
qed

lemma comInverter_next_pid [simp]:
  "next_pid (fst (comInverter E type po ps s)) = Suc (next_pid s)"
  by (simp add: comInverter_def Let_def settle_promise_def addTask_def case_prod_beta
      split: sum.splits)

lemma balance_comInverter:
  "balance q (js @ snd (comInverter E type po ps s)) (fst (comInverter E type po ps s))
     = balance q (React ps out # js) s + (if q = next_pid s then 1 else 0)"
  by (simp add: balance_def owners_def comInverter_def Let_def settle_promise_def addTask_def
      granted_job_def handles_def case_prod_beta split: sum.splits)

lemma conserved_comInverter:
  assumes "conserved (React ps out # js) s"
  shows "conserved (js @ snd (comInverter E type po ps s)) (fst (comInverter E type po ps s))"
  unfolding conserved_balance balance_comInverter[where out = out]
  using assms by (auto simp: conserved_balance)

lemma comInverter_response_terminal:
  "\<not> unfinished res \<Longrightarrow>
     comInverter_response E e res s = qsettle (e_pid e) (e_stack e) (outcome E (e_checkRet e) res) s"
proof (cases res)
  case (Failure x)
  then show ?thesis by (simp add: comInverter_response_def outcome_def)
next
  case (Reply data path)
  assume "\<not> unfinished res"
  with Reply have n: "\<not> not_yet_finished data" by (simp add: unfinished_def)
  show ?thesis
  proof (cases "acknowledged data")
    case True
    with n have m: "\<not> (typeof (field data ''msg'') \<noteq> ''undefined'' \<and> field data ''msg'' = JStr [])"
      by (simp add: not_yet_finished_def)
    from True have t: "truthy data \<and> typeof (field data ''success'') \<noteq> ''undefined''"
      by (simp add: acknowledged_def)
    show ?thesis
      unfolding comInverter_response_def Let_def Reply response.case outcome_def parsed_def
      using True m t by (auto split: jsval.splits sum.splits)
  next
    case False
    then have t: "\<not> (truthy data \<and> typeof (field data ''success'') \<noteq> ''undefined'')"
      by (simp add: acknowledged_def)
    show ?thesis
      unfolding comInverter_response_def Let_def Reply response.case outcome_def
      using False t by simp
  qed
qed

lemma comInverter_response_unfinished:
  "unfinished res \<Longrightarrow>
     comInverter_response E e res s =
       (fst (comInverter E (e_type e) (e_paramorgi e) (e_pid e # e_stack e) (fst (taskFinished s))),
        granted_job (snd (taskFinished s))
          @ snd (comInverter E (e_type e) (e_paramorgi e) (e_pid e # e_stack e) (fst (taskFinished s))))"
proof (cases res)
  case (Failure x)
  assume "unfinished res"
  with Failure show ?thesis by (simp add: unfinished_def)
next
  case (Reply data path)
  assume "unfinished res"
  with Reply have c: "truthy data" "typeof (field data ''success'') \<noteq> ''undefined''"
      "field data ''msg'' = JStr []"
    by (simp_all add: unfinished_def not_yet_finished_def acknowledged_def)
  show ?thesis
    unfolding comInverter_response_def Let_def Reply response.case
    using c by (simp add: case_prod_beta)
qed

lemma balance_cong_jobs:
  "concat (map job_handles js) = concat (map job_handles js') \<Longrightarrow> balance q js s = balance q js' s"
  by (simp add: balance_def owners_def)

lemma balance_response:
  "balance q (js @ snd (comInverter_response E e res s)) (fst (comInverter_response E e res s))
     = balance q (Continue e # js) s + (if unfinished res \<and> q = next_pid s then 1 else 0)"
proof (cases "unfinished res")
  case False
  have h: "job_handles (Continue e) = e_pid e # e_stack e" by (simp add: handles_def)
  from False show ?thesis
    by (simp add: comInverter_response_terminal balance_qsettle[OF h])
next
  case True
  let ?t = "taskFinished s"
  let ?X = "comInverter E (e_type e) (e_paramorgi e) (e_pid e # e_stack e) (fst ?t)"
  let ?R = "React (e_pid e # e_stack e) (Rejected TypeError)"
  have "balance q ((js @ granted_job (snd ?t)) @ snd ?X) (fst ?X)
          = balance q (?R # js @ granted_job (snd ?t)) (fst ?t) + (if q = next_pid s then 1 else 0)"
    by (simp only: balance_comInverter[where out = "Rejected TypeError"] taskFinished_next_pid)
  also have "balance q (?R # js @ granted_job (snd ?t)) (fst ?t)
          = balance q ((?R # js) @ granted_job (snd ?t)) (fst ?t)" by simp
  also have "\<dots> = balance q (?R # js) s"
    by (rule balance_taskFinished)
  also have "\<dots> = balance q (Continue e # js) s"
    by (rule balance_cong_jobs) (simp add: handles_def)
  finally show ?thesis using True by (simp add: comInverter_response_unfinished)
qed

lemma comInverter_response_next_pid:
  "next_pid (fst (comInverter_response E e res s))
     = (if unfinished res then Suc (next_pid s) else next_pid s)"
  by (cases "unfinished res")
     (simp_all add: comInverter_response_terminal comInverter_response_unfinished)

lemma conserved_response:
  assumes "conserved (Continue e # js) s"
  shows "conserved (js @ snd (comInverter_response E e res s)) (fst (comInverter_response E e res s))"
  using assms
  by (auto simp: conserved_balance balance_response comInverter_response_next_pid)

lemma balance_remove_pending:
  assumes "e \<in> set (pending s)"
  shows "balance q [Continue e] (s\<lparr>pending := remove1 e (pending s)\<rparr>) = balance q [] s"
  using count_handles_remove1[OF assms, of q]
  by (simp add: balance_def owners_def)

lemma find_in_set: "find P xs = Some x \<Longrightarrow> x \<in> set xs \<and> P x"
  by (induction xs) (auto split: if_splits)

lemma conserved_calls:
  "conserved js s \<Longrightarrow> conserved (js @ snd (calls E cs s)) (fst (calls E cs s))"
proof (induction cs arbitrary: js s)
  case Nil
  then show ?case by simp
next
  case (Cons c cs)
  obtain type po where c: "c = (type, po)" by (cases c)
  have "conserved (React [] (Rejected TypeError) # js) s"
    using Cons.prems by (simp add: conserved_balance balance_React_Nil)
  then have "conserved (js @ snd (comInverter E type po [] s)) (fst (comInverter E type po [] s))"
    by (rule conserved_comInverter)
  from Cons.IH[OF this] show ?case
    by (simp add: c case_prod_beta)
qed

lemma conserved_step:
  assumes "conserved [] s"
  shows "conserved [] (step E ev s)"
proof (cases ev)
  case (Session b)
  with assms show ?thesis
    by (simp add: step_def conserved_balance balance_def owners_def)
next
  case (Call cs)
  from conserved_calls[OF assms, of E cs] show ?thesis
    by (simp add: step_def Call case_prod_beta conserved_drain)
next
  case (Response p res)
  show ?thesis
  proof (cases "find (\<lambda>e. e_pid e = p) (pending s)")
    case None
    with assms show ?thesis by (simp add: step_def Response)
  next
    case (Some e)
    then have "e \<in> set (pending s)" by (simp add: find_in_set)
    then have "conserved [Continue e] (s\<lparr>pending := remove1 e (pending s)\<rparr>)"
      using assms by (simp add: conserved_balance balance_remove_pending)
    from conserved_response[OF this, of E res] show ?thesis
      by (simp add: step_def Response Some case_prod_beta conserved_drain)
  qed
qed

lemma conserved_init: "conserved [] init"
  by (simp add: conserved_balance balance_def owners_def init_def)

lemma conserved_run: "conserved [] s \<Longrightarrow> conserved [] (run E evs s)"
  by (induction evs arbitrary: s) (simp_all add: conserved_step)

lemma slot_held_qsettle:
  "slot_held (js @ snd (qsettle p ps out s)) (fst (qsettle p ps out s))"
  by (simp add: slot_held_def qsettle_eq split: list.splits)

lemma slot_held_taskFinished:
  "slot_held (js @ granted_job (snd (taskFinished s))) (fst (taskFinished s))"
  by (simp add: slot_held_def taskFinished_def granted_job_def split: list.splits)

lemma slot_held_comInverter:
  "slot_held js s \<Longrightarrow>
     slot_held (js @ snd (comInverter E type po ps s)) (fst (comInverter E type po ps s))"
  by (auto simp: slot_held_def comInverter_def Let_def settle_promise_def addTask_def
      granted_job_def case_prod_beta split: sum.splits)

lemma slot_held_response:
  "slot_held (js @ snd (comInverter_response E e res s)) (fst (comInverter_response E e res s))"
proof (cases "unfinished res")
  case False
  then show ?thesis by (simp add: comInverter_response_terminal slot_held_qsettle)
next
  case True
  have "slot_held ((js @ granted_job (snd (taskFinished s)))
          @ snd (comInverter E (e_type e) (e_paramorgi e) (e_pid e # e_stack e) (fst (taskFinished s))))
        (fst (comInverter E (e_type e) (e_paramorgi e) (e_pid e # e_stack e) (fst (taskFinished s))))"
    by (rule slot_held_comInverter) (rule slot_held_taskFinished)
  with True show ?thesis by (simp add: comInverter_response_unfinished)
qed

lemma slot_held_drain: "slot_held js s \<Longrightarrow> slot_held [] (drain js s)"
proof (induction js s rule: drain.induct)
  case (1 s)
  then show ?case by simp
next
  case (2 e js s)
  show ?case
  proof (cases "connected s")
    case True
    have "slot_held js (post e s)"
      using 2(3) by (auto simp: slot_held_def post_def)
    with 2(2) True show ?thesis by simp
  next
    case False
    with 2(1) slot_held_qsettle show ?thesis by simp
  qed
next
  case (3 out js s)
  have "slot_held js s" using 3(2) by (auto simp: slot_held_def)
  with 3(1) show ?case by simp
next
  case (4 q qs out js s)
  with slot_held_qsettle show ?case by simp
qed

lemma slot_held_calls:
  "slot_held js s \<Longrightarrow> slot_held (js @ snd (calls E cs s)) (fst (calls E cs s))"
proof (induction cs arbitrary: js s)
  case Nil
  then show ?case by simp
next
  case (Cons c cs)
  obtain type po where c: "c = (type, po)" by (cases c)
  from Cons.IH[OF slot_held_comInverter[OF Cons.prems, of E type po "[]"]] show ?case
    by (simp add: c case_prod_beta)
qed

lemma slot_held_step:
  assumes "slot_held [] s"
  shows "slot_held [] (step E ev s)"
proof (cases ev)
  case (Session b)
  with assms show ?thesis by (simp add: step_def slot_held_def)
next
  case (Call cs)
  from slot_held_calls[OF assms, of E cs] show ?thesis
    by (simp add: step_def Call case_prod_beta slot_held_drain)
next
  case (Response p res)
  show ?thesis
  proof (cases "find (\<lambda>e. e_pid e = p) (pending s)")
    case None
    with assms show ?thesis by (simp add: step_def Response)
  next
    case (Some e)
    from slot_held_response[of "[]" E e res] show ?thesis
      by (simp add: step_def Response Some case_prod_beta slot_held_drain)
  qed
qed

lemma slot_held_run: "slot_held [] s \<Longrightarrow> slot_held [] (run E evs s)"
  by (induction evs arbitrary: s) (simp_all add: slot_held_step)

lemma slot_held_init: "slot_held [] init"
  by (simp add: slot_held_def init_def)

lemma settled_at_most_once:
  assumes "conserved [] s"
  shows "length (settles p (trace s)) \<le> 1"
proof -
  from assms have "balance p [] s \<le> 1" by (simp add: conserved_balance)
  then show ?thesis by (simp add: balance_def)
qed

lemma unsettled_is_owned:
  assumes "conserved [] s" and "p < next_pid s" and "settles p (trace s) = []"
  shows "p \<in> set (owners [] s)"
proof -
  from assms(1,2) have "balance p [] s = 1" by (simp add: conserved_balance)
  with assms(3) have "count_list (owners [] s) p = 1" by (simp add: balance_def)
  then show ?thesis by (metis count_list_0_iff zero_neq_one)
qed

lemma idle_owners:
  assumes "slot_held [] s" and "pending s = []"
  shows "owners [] s = []"
  using assms by (auto simp: slot_held_def owners_def)

lemma settled_when_idle:
  assumes "conserved [] s" and "slot_held [] s" and "pending s = []" and "p < next_pid s"
  shows "length (settles p (trace s)) = 1"
proof -
  from assms(1,4) have "balance p [] s = 1" by (simp add: conserved_balance)
  with idle_owners[OF assms(2,3)] show ?thesis by (simp add: balance_def)
qed

section \<open>Terminal responses\<close>

lemma drain_queue: "\<exists>n. queue (drain js s) = drop n (queue s)"
proof (induction js s rule: drain.induct)
  case (1 s)
  show ?case by (simp, rule exI[of _ 0], simp)
next
  case (2 e js s)
  show ?case
  proof (cases "connected s")
    case True
    with 2(2) show ?thesis by (simp add: post_def)
  next
    case False
    from 2(1)[OF False] obtain n where
      "queue (drain (Continue e # js) s) = drop n (tl (queue s))" using False by auto
    then have "queue (drain (Continue e # js) s) = drop (Suc n) (queue s)"
      by (simp add: drop_Suc)
    then show ?thesis by blast
  qed
next
  case (3 out js s)
  then show ?case by simp
next
  case (4 q qs out js s)
  then obtain n where "queue (drain (React (q # qs) out # js) s) = drop n (tl (queue s))"
    by auto
  then have "queue (drain (React (q # qs) out # js) s) = drop (Suc n) (queue s)"
    by (simp add: drop_Suc)
  then show ?case by blast
qed





section \<open>Every entry has passed the check\<close>











section \<open>The result parser\<close>

lemma comInverter_parseRet [simp]:
  "comInverter (E\<lparr>parseRet := f\<rparr>) type po ps s = comInverter E type po ps s"
  by (simp add: comInverter_def)






section \<open>Facts about the check\<close>

lemma bnd_Inr_iff [simp]: "(bnd m f = Inr y) = (\<exists>x. m = Inr x \<and> f x = Inr y)"
  by (cases m) (simp_all add: bnd_def)

lemma bnd_Inr [simp]: "bnd (Inr x) f = f x"
  by (simp add: bnd_def)

lemma bnd_Inl [simp]: "bnd (Inl e) f = Inl e"
  by (simp add: bnd_def)



lemma get_object:
  "typeof b = ''object'' \<Longrightarrow> get b k = Inr x \<Longrightarrow> x = field b k"
  by (simp add: field_def)





lemma key_in: "(a, b) \<in> set ps \<Longrightarrow> a \<in> fst ` set ps"
  by force

lemma keys_setp:
  "map fst (setp ps k v) = (if k \<in> fst ` set ps then map fst ps else map fst ps @ [k])"
  by (induction ps) (auto dest: key_in)

lemma set_keys_setp: "fst ` set (setp ps k v) = insert k (fst ` set ps)"
proof -
  have "set (map fst (setp ps k v)) = insert k (set (map fst ps))"
    unfolding keys_setp by auto
  then show ?thesis by simp
qed

lemma getp_defined_key: "getp ps k \<noteq> JUndefined \<Longrightarrow> k \<in> fst ` set ps"
  using map_of_eq_None_iff[of ps k] by (auto simp: getp_def split: option.splits)

lemma typeof_undefined [simp]: "(typeof v = ''undefined'') = (v = JUndefined)"
  by (cases v) simp_all

lemma set_keys_assign:
  "fst ` set (assign rs param) = fst ` set param \<union> fst ` set rs"
proof (induction rs arbitrary: param)
  case Nil
  show ?case by simp
next
  case (Cons a rs)
  obtain n r where a: "a = (n, r)" by (cases a)
  show ?case by (simp add: a Cons.IH set_keys_setp)
qed

lemma params_loop_step:
  "params_loop PI type fn p v (name # names) param
     = bnd (convert1 PI type fn p v name) (\<lambda>r. params_loop PI type fn p v names (setp param name r))"
proof (cases "get v name")
  case (Inl e)
  then show ?thesis by (simp add: convert1_def)
next
  case x: (Inr x)
  show ?thesis
  proof (cases "get p name")
    case (Inl e)
    with x show ?thesis by (simp add: convert1_def)
  next
    case pn: (Inr pn)
    show ?thesis
    proof (cases "x = JUndefined")
      case True
      with x pn show ?thesis
        by (cases "get pn ''name''") (simp_all add: convert1_def)
    next
      case False
      show ?thesis
      proof (cases "get pn ''type''")
        case (Inl e)
        with x pn False show ?thesis by (simp add: convert1_def)
      next
        case t: (Inr t)
        show ?thesis
        proof (cases "PI t")
          case None
          with x pn False t show ?thesis by (simp add: convert1_def)
        next
          case (Some f)
          obtain r ok where r: "f x = (r, ok)" by (cases "f x")
          show ?thesis
          proof (cases ok)
            case True
            with x pn False t Some r show ?thesis by (simp add: convert1_def)
          next
            case nok: False
            with x pn False t Some r show ?thesis
              by (cases "get pn ''name''") (simp_all add: convert1_def)
          qed
        qed
      qed
    qed
  qed
qed

lemma params_loop_converted:
  "params_loop PI type fn p v names param
     = bnd (converted PI type fn p v names) (\<lambda>rs. Inr (assign rs param))"
proof (induction names arbitrary: param)
  case Nil
  show ?case by simp
next
  case (Cons name names)
  show ?case
  proof (cases "convert1 PI type fn p v name")
    case (Inl e)
    then show ?thesis by (simp only: params_loop_step converted.simps bnd_Inl)
  next
    case (Inr r)
    then show ?thesis
      by (cases "converted PI type fn p v names")
         (simp_all only: params_loop_step converted.simps bnd_Inl bnd_Inr Cons.IH assign.simps)
  qed
qed

lemma converted_names:
  "converted PI type fn p v names = Inr rs \<Longrightarrow> map fst rs = names"
proof (induction names arbitrary: rs)
  case Nil
  then show ?case by simp
next
  case (Cons name names)
  from Cons.prems obtain r rs' where
    "converted PI type fn p v names = Inr rs'" "rs = (name, r) # rs'"
    by auto
  with Cons.IH[of rs'] show ?case by simp
qed

lemma convert1_cong: "get v n = get v' n \<Longrightarrow> convert1 PI type fn p v n = convert1 PI type fn p v' n"
  by (simp add: convert1_def)

lemma converted_cong:
  assumes "\<forall>n \<in> set names. get v n = get v' n"
  shows "converted PI type fn p v names = converted PI type fn p v' names"
  using assms
proof (induction names)
  case Nil
  show ?case by simp
next
  case (Cons n names)
  from Cons.prems have "convert1 PI type fn p v n = convert1 PI type fn p v' n"
    by (intro convert1_cong) simp
  moreover from Cons have "converted PI type fn p v names = converted PI type fn p v' names"
    by simp
  ultimately show ?case by simp
qed

lemma check_type_converted:
  "check_type PI type po b param =
     (if getp param ''type'' \<noteq> JUndefined then
        bnd (get b ''type'') (\<lambda>ty.
          if typeof ty = ''string'' then
            (if typeof (val po) = ''object'' then
               bnd (get b ''param'') (\<lambda>p.
                 if typeof p = ''object'' then
                   bnd (Object_keys p) (\<lambda>names.
                     bnd (converted PI type (func po) p (val po) names) (\<lambda>rs.
                       Inr (assign rs (setp param ''type'' ty))))
                 else Inr (setp param ''type'' ty))
             else Inr (setp param ''type'' ty))
          else Inr param)
      else Inr param)"
  by (simp add: check_type_def Let_def params_loop_converted cong: if_cong)

lemma check_action_val [simp]:
  "check_action gt type (po\<lparr>val := x\<rparr>) param = check_action gt type po param"
  by (simp add: check_action_def cong: if_cong)

lemma find_func_val [simp]: "find_func gt type (po\<lparr>val := x\<rparr>) = find_func gt type po"
  by (simp add: find_func_def cong: if_cong)

lemma find_func_url [simp]: "find_func gt type (po\<lparr>url := x\<rparr>) = find_func gt type po"
  by (simp add: find_func_def cong: if_cong)

lemma check_action_url [simp]:
  "check_action gt type (po\<lparr>url := x\<rparr>) param = check_action gt type po param"
  by (simp add: check_action_def cong: if_cong)

lemma declared_val [simp]: "declared GT type (po\<lparr>val := x\<rparr>) = declared GT type po"
  by (simp add: declared_def)

lemma map_of_filter_key:
  "n \<in> S \<Longrightarrow> map_of (filter (\<lambda>(k, v). k \<in> S) vs) n = map_of vs n"
  by (induction vs) auto

lemma getp_filter_key: "n \<in> S \<Longrightarrow> getp (filter (\<lambda>(k, v). k \<in> S) vs) n = getp vs n"
  by (simp add: getp_def map_of_filter_key)

lemma declared_names:
  assumes "find_func (getp GT type) type po = Inr b" and "get b ''param'' = Inr p"
    and "Object_keys p = Inr names"
  shows "declared GT type po = names"
  using assms by (simp add: declared_def)

lemma check_type_filter:
  assumes "find_func (getp GT type) type po = Inr b"
  shows "check_type PI type (po\<lparr>val := JObj (filter (\<lambda>(k, v). k \<in> set (declared GT type po)) vs)\<rparr>) b param
       = check_type PI type (po\<lparr>val := JObj vs\<rparr>) b param"
proof (cases "get b ''param''")
  case (Inl e)
  then show ?thesis by (simp add: check_type_converted cong: if_cong)
next
  case p: (Inr p)
  show ?thesis
  proof (cases "Object_keys p")
    case (Inl e)
    with p show ?thesis by (simp add: check_type_converted cong: if_cong)
  next
    case (Inr names)
    from declared_names[OF assms p Inr] have d: "declared GT type po = names" .
    have "converted PI type (func po) p (JObj (filter (\<lambda>(k, v). k \<in> set names) vs)) names
            = converted PI type (func po) p (JObj vs) names"
      by (rule converted_cong) (simp add: getp_filter_key)
    with p Inr d show ?thesis by (simp add: check_type_converted cong: if_cong)
  qed
qed

lemma check_filter:
  "comInverter_check GT PI type (po\<lparr>val := JObj (filter (\<lambda>(k, v). k \<in> set (declared GT type po)) vs)\<rparr>)
     = comInverter_check GT PI type (po\<lparr>val := JObj vs\<rparr>)"
proof (cases "find_func (getp GT type) type po")
  case (Inl e)
  then show ?thesis by (simp add: comInverter_check_def)
next
  case (Inr b)
  then show ?thesis by (simp add: comInverter_check_def check_type_filter[OF Inr])
qed

lemma check_action_shape:
  assumes "check_action gt type po param = Inr param1"
  shows "(typeof (action po) \<noteq> ''string'' \<and> param1 = param)
       \<or> (typeof (action po) = ''string'' \<and>
            (\<exists>a. get gt (str_of (action po)) = Inr a \<and> typeof a = ''string''
               \<and> param1 = setp param ''action'' a))"
proof (cases "typeof (action po) = ''string''")
  case False
  with assms show ?thesis by (simp add: check_action_def)
next
  case True
  show ?thesis
  proof (cases "typeof gt = ''object''")
    case False
    with assms True show ?thesis by (simp add: check_action_def)
  next
    case obj: True
    with assms True obtain a where a: "get gt (str_of (action po)) = Inr a"
      by (cases "get gt (str_of (action po))") (simp_all add: check_action_def)
    with assms True obj show ?thesis
      by (cases "typeof a = ''string''") (simp_all add: check_action_def)
  qed
qed

lemma check_paramId_shape:
  assumes "check_paramId b param = Inr (param2, c)"
  shows "param2 = param
       \<or> (getp param ''paramId'' \<noteq> JUndefined \<and>
            (\<exists>pid. get b ''paramId'' = Inr pid \<and> typeof pid = ''string''
               \<and> param2 = setp param ''paramId'' pid))"
proof (cases "getp param ''paramId'' = JUndefined")
  case True
  with assms show ?thesis by (simp add: check_paramId_def)
next
  case False
  with assms obtain pid where pid: "get b ''paramId'' = Inr pid"
    by (cases "get b ''paramId''") (simp_all add: check_paramId_def)
  show ?thesis
  proof (cases "typeof pid = ''string''")
    case True
    with assms False pid show ?thesis
      by (cases "get b ''parseRet''") (simp_all add: check_paramId_def)
  next
    case nstr: False
    with assms False pid show ?thesis by (simp add: check_paramId_def)
  qed
qed

lemma check_type_shape:
  assumes "check_type PI type po b param = Inr param3"
  shows "param3 = param
       \<or> (getp param ''type'' \<noteq> JUndefined \<and>
            (\<exists>ty. get b ''type'' = Inr ty \<and> typeof ty = ''string'' \<and>
               (param3 = setp param ''type'' ty
                \<or> (typeof (val po) = ''object'' \<and>
                    (\<exists>p names rs. get b ''param'' = Inr p \<and> typeof p = ''object''
                       \<and> Object_keys p = Inr names
                       \<and> converted PI type (func po) p (val po) names = Inr rs
                       \<and> param3 = assign rs (setp param ''type'' ty))))))"
proof (cases "getp param ''type'' = JUndefined")
  case True
  with assms show ?thesis by (simp add: check_type_converted)
next
  case False
  with assms obtain ty where ty: "get b ''type'' = Inr ty"
    by (cases "get b ''type''") (simp_all add: check_type_converted)
  show ?thesis
  proof (cases "typeof ty = ''string''")
    case nstr: False
    with assms False ty show ?thesis by (simp add: check_type_converted)
  next
    case str: True
    show ?thesis
    proof (cases "typeof (val po) = ''object''")
      case nobj: False
      with assms False ty str show ?thesis by (simp add: check_type_converted)
    next
      case vobj: True
      with assms False ty str obtain p where p: "get b ''param'' = Inr p"
        by (cases "get b ''param''") (simp_all add: check_type_converted)
      show ?thesis
      proof (cases "typeof p = ''object''")
        case npobj: False
        with assms False ty str vobj p show ?thesis by (simp add: check_type_converted)
      next
        case pobj: True
        with assms False ty str vobj p obtain names where n: "Object_keys p = Inr names"
          by (cases "Object_keys p") (simp_all add: check_type_converted)
        with assms False ty str vobj p pobj obtain rs where
          "converted PI type (func po) p (val po) names = Inr rs"
          "param3 = assign rs (setp param ''type'' ty)"
          by (cases "converted PI type (func po) p (val po) names")
             (simp_all add: check_type_converted)
        with False ty str vobj p pobj n show ?thesis by blast
      qed
    qed
  qed
qed

lemma check_parts:
  assumes "comInverter_check GT PI type po = Inr (param, c)"
  obtains param1 b param2 where
    "check_action (getp GT type) type po (url po) = Inr param1"
    "find_func (getp GT type) type po = Inr b"
    "check_paramId b param1 = Inr (param2, c)"
    "check_type PI type po b param2 = Inr param"
  using assms by (auto simp: comInverter_check_def Let_def)

lemma check_action_keys:
  assumes "check_action gt type po param = Inr param1"
  shows "fst ` set param1 \<subseteq> insert ''action'' (fst ` set param)"
  using check_action_shape[OF assms]
  by (elim disjE conjE exE) (simp_all add: set_keys_setp subset_insertI)

lemma check_paramId_keys:
  assumes "check_paramId b param = Inr (param2, c)"
  shows "fst ` set param2 = fst ` set param"
  using check_paramId_shape[OF assms]
proof (elim disjE conjE exE)
  assume "param2 = param"
  then show ?thesis by simp
next
  fix pid
  assume "getp param ''paramId'' \<noteq> JUndefined" and p: "param2 = setp param ''paramId'' pid"
  then have "''paramId'' \<in> fst ` set param" by (intro getp_defined_key)
  then show ?thesis by (simp add: p set_keys_setp insert_absorb)
qed

lemma check_type_keys:
  assumes "check_type PI type po b param = Inr param3"
    and "find_func (getp GT type) type po = Inr b"
  shows "fst ` set param3 \<subseteq> fst ` set param \<union> set (declared GT type po)"
  using check_type_shape[OF assms(1)]
proof (elim disjE conjE exE)
  assume "param3 = param"
  then show ?thesis by simp
next
  fix ty
  assume "getp param ''type'' \<noteq> JUndefined" and p: "param3 = setp param ''type'' ty"
  then have "''type'' \<in> fst ` set param" by (intro getp_defined_key)
  then show ?thesis by (simp add: p set_keys_setp insert_absorb)
next
  fix ty p names rs
  assume d: "getp param ''type'' \<noteq> JUndefined"
    and gp: "get b ''param'' = Inr p" and n: "Object_keys p = Inr names"
    and c: "converted PI type (func po) p (val po) names = Inr rs"
    and r: "param3 = assign rs (setp param ''type'' ty)"
  from d have k: "''type'' \<in> fst ` set param" by (intro getp_defined_key)
  from converted_names[OF c] have "fst ` set rs = set names" by (metis set_map)
  with k declared_names[OF assms(2) gp n] show ?thesis
    by (simp add: r set_keys_assign set_keys_setp insert_absorb)
qed

lemma check_keys:
  assumes "comInverter_check GT PI type po = Inr (param, c)"
  shows "fst ` set param \<subseteq> insert ''action'' (fst ` set (url po)) \<union> set (declared GT type po)"
proof -
  from assms obtain param1 b param2 where
    a: "check_action (getp GT type) type po (url po) = Inr param1"
    and b: "find_func (getp GT type) type po = Inr b"
    and p: "check_paramId b param1 = Inr (param2, c)"
    and t: "check_type PI type po b param2 = Inr param"
    by (rule check_parts)
  have gen: "\<And>(A::string set) B C D X K. A \<subseteq> insert X B \<Longrightarrow> C = A \<Longrightarrow> K \<subseteq> C \<union> D
      \<Longrightarrow> K \<subseteq> insert X B \<union> D" by auto
  from check_action_keys[OF a] check_paramId_keys[OF p] check_type_keys[OF t b]
  show ?thesis by (rule gen)
qed







lemma key_assign: "k \<in> fst ` set q \<Longrightarrow> k \<in> fst ` set (assign rs q)"
  by (simp add: set_keys_assign)








lemma check_type_url [simp]:
  "check_type PI type (po\<lparr>url := x\<rparr>) b param = check_type PI type po b param"
  by (simp add: check_type_def cong: if_cong)












section \<open>Commands of a session that is not connected\<close>

lemma settled_append [simp]: "settled (a @ b) = settled a @ settled b"
  by (induction a rule: settled.induct) simp_all

lemma granted_append [simp]: "granted (a @ b) = granted a @ granted b"
  by (induction a rule: granted.induct) simp_all

lemma posted_append [simp]: "posted (a @ b) = posted a @ posted b"
  by (induction a rule: posted.induct) simp_all

lemma drain_queue_empty: "queue s = [] \<Longrightarrow> queue (drain js s) = []"
  using drain_queue[of js s] by auto

lemma flush:
  assumes "\<not> connected s" and "queue s = e # rest" and "\<forall>x \<in> set (e # rest). e_stack x = []"
  shows "settled (trace (drain [Continue e] s))
           = settled (trace s) @ map (\<lambda>x. (e_pid x, Rejected NotConnected)) (e # rest)
       \<and> posted (trace (drain [Continue e] s)) = posted (trace s)
       \<and> queue (drain [Continue e] s) = []
       \<and> pending (drain [Continue e] s) = pending s"
  using assms
proof (induction rest arbitrary: e s)
  case Nil
  then show ?case by (simp add: qsettle_eq)
next
  case (Cons r rest)
  let ?s1 = "s\<lparr>trace := trace s @ [Settled (e_pid e) (Rejected NotConnected), Granted (e_pid r)],
                queue := r # rest\<rparr>"
  have d: "drain [Continue e] s = drain [Continue r] ?s1"
    using Cons.prems by (simp add: qsettle_eq)
  have "settled (trace (drain [Continue r] ?s1))
           = settled (trace ?s1) @ map (\<lambda>x. (e_pid x, Rejected NotConnected)) (r # rest)
       \<and> posted (trace (drain [Continue r] ?s1)) = posted (trace ?s1)
       \<and> queue (drain [Continue r] ?s1) = []
       \<and> pending (drain [Continue r] ?s1) = pending ?s1"
    using Cons.prems by (intro Cons.IH) simp_all
  then show ?case by (simp add: d del: drain.simps)
qed

lemma calls_passing:
  assumes "\<forall>c \<in> set cs. passes E c"
  shows "calls E cs s =
           (s\<lparr>queue := queue s @ entries_of E (next_pid s) cs,
              next_pid := next_pid s + length cs,
              trace := trace s @ (if queue s = [] \<and> cs \<noteq> [] then [Granted (next_pid s)] else [])\<rparr>,
            if queue s = [] \<and> cs \<noteq> [] then [Continue (hd (entries_of E (next_pid s) cs))] else [])"
  using assms
proof (induction cs arbitrary: s)
  case Nil
  then show ?case by simp
next
  case (Cons c cs)
  obtain type po where c: "c = (type, po)" by (cases c)
  with Cons.prems obtain param cr where
    ch: "comInverter_check (GROWATTTYPE E) (PARSEIN E) type po = Inr (param, cr)"
    by (auto simp: passes_def split: sum.splits)
  from Cons.prems have rest: "\<forall>c \<in> set cs. passes E c" by simp
  show ?case
    by (simp add: c ch comInverter_def Let_def addTask_def granted_job_def Cons.IH[OF rest])
qed

lemma entries_of_passing:
  assumes "\<forall>c \<in> set cs. passes E c"
  shows "map e_pid (entries_of E n cs) = [n ..< n + length cs]
       \<and> (\<forall>x \<in> set (entries_of E n cs). e_stack x = [])"
  using assms
proof (induction cs arbitrary: n)
  case Nil
  then show ?case by simp
next
  case (Cons c cs)
  obtain type po where c: "c = (type, po)" by (cases c)
  with Cons.prems obtain param cr where
    ch: "comInverter_check (GROWATTTYPE E) (PARSEIN E) type po = Inr (param, cr)"
    by (auto simp: passes_def split: sum.splits)
  from Cons.prems have rest: "\<forall>c \<in> set cs. passes E c" by simp
  have "[n ..< n + length (c # cs)] = n # [Suc n ..< Suc n + length cs]"
    by (simp add: upt_conv_Cons del: upt_Suc)
  with Cons.IH[OF rest, of "Suc n"] show ?case
    by (simp add: c ch del: upt_Suc)
qed

lemma calls_while_disconnected:
  assumes "\<not> connected s" and "queue s = []" and "\<forall>c \<in> set cs. passes E c"
  shows "settled (trace (step E (Call cs) s))
           = settled (trace s)
               @ map (\<lambda>i. (i, Rejected NotConnected)) [next_pid s ..< next_pid s + length cs]
       \<and> posted (trace (step E (Call cs) s)) = posted (trace s)
       \<and> queue (step E (Call cs) s) = []
       \<and> pending (step E (Call cs) s) = pending s"
proof (cases cs)
  case Nil
  with assms show ?thesis by (simp add: step_def)
next
  case (Cons c cs')
  let ?es = "entries_of E (next_pid s) cs"
  from entries_of_passing[OF assms(3), of "next_pid s"]
  have pids: "map e_pid ?es = [next_pid s ..< next_pid s + length cs]"
    and stacks: "\<forall>x \<in> set ?es. e_stack x = []" by simp_all
  from pids Cons have ne: "?es \<noteq> []" by auto
  then obtain e rest where es: "?es = e # rest" by (cases ?es) auto
  let ?s1 = "s\<lparr>queue := queue s @ ?es, next_pid := next_pid s + length cs,
               trace := trace s @ [Granted (next_pid s)]\<rparr>"
  from Cons have "cs \<noteq> []" by simp
  with calls_passing[OF assms(3), of s] assms(2) es
  have cl: "calls E cs s = (?s1, [Continue e])" by simp
  have st: "step E (Call cs) s = drain [Continue e] ?s1"
    by (simp add: step_def cl del: drain.simps)
  have "settled (trace (drain [Continue e] ?s1))
           = settled (trace ?s1) @ map (\<lambda>x. (e_pid x, Rejected NotConnected)) (e # rest)
       \<and> posted (trace (drain [Continue e] ?s1)) = posted (trace ?s1)
       \<and> queue (drain [Continue e] ?s1) = []
       \<and> pending (drain [Continue e] ?s1) = pending ?s1"
    using assms(1,2) es stacks by (intro flush) simp_all
  moreover have "map (\<lambda>x. (e_pid x, Rejected NotConnected)) (e # rest)
      = map (\<lambda>i. (i, Rejected NotConnected)) (map e_pid ?es)"
    by (simp add: es)
  ultimately show ?thesis by (simp add: st pids del: drain.simps)
qed

lemma qsettle_shape:
  "\<exists>t. trace (fst (qsettle p ps out s)) = trace s @ t \<and> announces t (snd (qsettle p ps out s))
       \<and> Settled p out \<in> set t
       \<and> (queue (fst (qsettle p ps out s)) = [] \<or> (\<exists>r. Continue r \<in> set (snd (qsettle p ps out s))))"
  by (auto simp: qsettle_eq announces_def split: list.splits)

lemma taskFinished_shape:
  "\<exists>t. trace (fst (taskFinished s)) = trace s @ t \<and> announces t (granted_job (snd (taskFinished s)))"
  by (auto simp: taskFinished_def granted_job_def announces_def split: list.splits)

lemma comInverter_shape:
  "\<exists>t. trace (fst (comInverter E type po ps s)) = trace s @ t
       \<and> announces t (snd (comInverter E type po ps s))"
  by (auto simp: comInverter_def Let_def settle_promise_def addTask_def granted_job_def
      announces_def split: sum.splits)

lemma announces_append:
  "announces t1 js1 \<Longrightarrow> announces t2 js2 \<Longrightarrow> announces (t1 @ t2) (js1 @ js2)"
  by (auto simp: announces_def)

lemma response_shape:
  "\<exists>t. trace (fst (comInverter_response E e res s)) = trace s @ t
       \<and> announces t (snd (comInverter_response E e res s))"
proof (cases "unfinished res")
  case False
  with qsettle_shape[of "e_pid e" "e_stack e" "outcome E (e_checkRet e) res" s] show ?thesis
    by (auto simp: comInverter_response_terminal)
next
  case True
  let ?t = "taskFinished s"
  let ?X = "comInverter E (e_type e) (e_paramorgi e) (e_pid e # e_stack e) (fst ?t)"
  obtain t1 where t1: "trace (fst ?t) = trace s @ t1" "announces t1 (granted_job (snd ?t))"
    using taskFinished_shape by blast
  obtain t2 where t2: "trace (fst ?X) = trace (fst ?t) @ t2" "announces t2 (snd ?X)"
    using comInverter_shape by blast
  have "trace (fst ?X) = trace s @ (t1 @ t2)" using t1 t2 by simp
  moreover have "announces (t1 @ t2) (granted_job (snd ?t) @ snd ?X)"
    using t1 t2 by (intro announces_append)
  ultimately show ?thesis using True
    by (simp only: comInverter_response_unfinished fst_conv snd_conv) blast
qed

lemma calls_shape:
  "\<exists>t. trace (fst (calls E cs s)) = trace s @ t \<and> announces t (snd (calls E cs s))"
proof (induction cs arbitrary: s)
  case Nil
  show ?case by (simp add: announces_def)
next
  case (Cons c cs)
  obtain type po where c: "c = (type, po)" by (cases c)
  let ?X = "comInverter E type po [] s"
  obtain t1 where t1: "trace (fst ?X) = trace s @ t1" "announces t1 (snd ?X)"
    using comInverter_shape by blast
  obtain t2 where t2: "trace (fst (calls E cs (fst ?X))) = trace (fst ?X) @ t2"
      "announces t2 (snd (calls E cs (fst ?X)))"
    using Cons.IH by blast
  have "trace (fst (calls E (c # cs) s)) = trace s @ (t1 @ t2)"
    using t1 t2 by (simp add: c case_prod_beta)
  moreover have "announces (t1 @ t2) (snd (calls E (c # cs) s))"
    using announces_append[OF t1(2) t2(2)] by (simp add: c case_prod_beta)
  ultimately show ?case by blast
qed

lemma calls_connected [simp]: "connected (fst (calls E cs s)) = connected s"
proof (induction cs arbitrary: s)
  case Nil
  show ?case by simp
next
  case (Cons c cs)
  obtain type po where c: "c = (type, po)" by (cases c)
  show ?case by (simp add: c case_prod_beta Cons.IH)
qed

lemma drain_disconnected:
  assumes "\<not> connected s"
  shows "\<exists>t. trace (drain js s) = trace s @ t \<and> refused t
            \<and> (\<forall>e. Continue e \<in> set js \<longrightarrow> Settled (e_pid e) (Rejected NotConnected) \<in> set t)
            \<and> (granted t \<noteq> [] \<or> (\<exists>e. Continue e \<in> set js) \<longrightarrow> queue (drain js s) = [])"
  using assms
proof (induction js s rule: drain.induct)
  case (1 s)
  show ?case by (simp add: refused_def)
next
  case (2 e js s)
  let ?X = "qsettle (e_pid e) (e_stack e) (Rejected NotConnected) s"
  have dc: "\<not> connected (fst ?X)" using 2(3) by simp
  have d: "drain (Continue e # js) s = drain (js @ snd ?X) (fst ?X)" using 2(3) by simp
  obtain t1 where t1: "trace (fst ?X) = trace s @ t1" "announces t1 (snd ?X)"
      "Settled (e_pid e) (Rejected NotConnected) \<in> set t1"
      "queue (fst ?X) = [] \<or> (\<exists>r. Continue r \<in> set (snd ?X))"
    using qsettle_shape by blast
  from 2(1)[OF 2(3) dc] obtain t2 where t2:
      "trace (drain (js @ snd ?X) (fst ?X)) = trace (fst ?X) @ t2" "refused t2"
      "\<forall>e. Continue e \<in> set (js @ snd ?X) \<longrightarrow> Settled (e_pid e) (Rejected NotConnected) \<in> set t2"
      "granted t2 \<noteq> [] \<or> (\<exists>e. Continue e \<in> set (js @ snd ?X))
         \<longrightarrow> queue (drain (js @ snd ?X) (fst ?X)) = []"
    by blast
  have a: "trace (drain (Continue e # js) s) = trace s @ (t1 @ t2)"
    using d t1(1) t2(1) by simp
  have b: "refused (t1 @ t2)"
    using t1(2) t2(2,3) by (auto simp: refused_def announces_def)
  have c: "\<forall>e'. Continue e' \<in> set (Continue e # js)
             \<longrightarrow> Settled (e_pid e') (Rejected NotConnected) \<in> set (t1 @ t2)"
    using t1(3) t2(3) by auto
  have q: "queue (drain (Continue e # js) s) = []"
  proof (cases "queue (fst ?X) = []")
    case True
    then show ?thesis by (simp only: d drain_queue_empty)
  next
    case False
    with t1(4) t2(4) show ?thesis by (simp only: d) auto
  qed
  from a b c q show ?case by blast
next
  case (3 out js s)
  from 3(1)[OF 3(2)] show ?case by simp
next
  case (4 q qs out js s)
  let ?X = "qsettle q qs out s"
  have dc: "\<not> connected (fst ?X)" using 4(2) by simp
  have d: "drain (React (q # qs) out # js) s = drain (js @ snd ?X) (fst ?X)" by simp
  obtain t1 where t1: "trace (fst ?X) = trace s @ t1" "announces t1 (snd ?X)"
    using qsettle_shape by blast
  from 4(1)[OF dc] obtain t2 where t2:
      "trace (drain (js @ snd ?X) (fst ?X)) = trace (fst ?X) @ t2" "refused t2"
      "\<forall>e. Continue e \<in> set (js @ snd ?X) \<longrightarrow> Settled (e_pid e) (Rejected NotConnected) \<in> set t2"
      "granted t2 \<noteq> [] \<or> (\<exists>e. Continue e \<in> set (js @ snd ?X))
         \<longrightarrow> queue (drain (js @ snd ?X) (fst ?X)) = []"
    by blast
  have a: "trace (drain (React (q # qs) out # js) s) = trace s @ (t1 @ t2)"
    using d t1(1) t2(1) by simp
  have b: "refused (t1 @ t2)"
    using t1(2) t2(2,3) by (auto simp: refused_def announces_def)
  have c: "\<forall>e'. Continue e' \<in> set (React (q # qs) out # js)
             \<longrightarrow> Settled (e_pid e') (Rejected NotConnected) \<in> set (t1 @ t2)"
    using t2(3) by auto
  have g: "granted (t1 @ t2) \<noteq> [] \<or> (\<exists>e. Continue e \<in> set (React (q # qs) out # js))
             \<longrightarrow> queue (drain (React (q # qs) out # js) s) = []"
  proof
    assume h: "granted (t1 @ t2) \<noteq> [] \<or> (\<exists>e. Continue e \<in> set (React (q # qs) out # js))"
    have "granted t2 \<noteq> [] \<or> (\<exists>e. Continue e \<in> set (js @ snd ?X))"
    proof (cases "granted t1 = []")
      case True
      with h show ?thesis by auto
    next
      case False
      then obtain x where "x \<in> set (granted t1)" by (cases "granted t1") auto
      with t1(2) show ?thesis by (auto simp: announces_def)
    qed
    with t2(4) show "queue (drain (React (q # qs) out # js) s) = []" by (simp only: d)
  qed
  from a b c g show ?case by blast
qed

lemma ops_then_drain:
  assumes "\<not> connected s1" and "trace s1 = trace s @ t1" and "announces t1 js"
  shows "\<exists>t. trace (drain js s1) = trace s @ t \<and> refused t
           \<and> (granted t \<noteq> [] \<longrightarrow> queue (drain js s1) = [])"
proof -
  from drain_disconnected[OF assms(1), of js] obtain t2 where t2:
      "trace (drain js s1) = trace s1 @ t2" "refused t2"
      "\<forall>e. Continue e \<in> set js \<longrightarrow> Settled (e_pid e) (Rejected NotConnected) \<in> set t2"
      "granted t2 \<noteq> [] \<or> (\<exists>e. Continue e \<in> set js) \<longrightarrow> queue (drain js s1) = []"
    by blast
  have a: "trace (drain js s1) = trace s @ (t1 @ t2)" using assms(2) t2(1) by simp
  have b: "refused (t1 @ t2)"
    using assms(3) t2(2,3) by (auto simp: refused_def announces_def)
  have c: "granted (t1 @ t2) \<noteq> [] \<longrightarrow> queue (drain js s1) = []"
  proof
    assume h: "granted (t1 @ t2) \<noteq> []"
    have "granted t2 \<noteq> [] \<or> (\<exists>e. Continue e \<in> set js)"
    proof (cases "granted t1 = []")
      case True
      with h show ?thesis by auto
    next
      case False
      then obtain x where "x \<in> set (granted t1)" by (cases "granted t1") auto
      with assms(3) show ?thesis by (auto simp: announces_def)
    qed
    with t2(4) show "queue (drain js s1) = []" by blast
  qed
  from a b c show ?thesis by blast
qed

lemma step_while_disconnected:
  assumes "\<not> connected s"
  shows "\<exists>t. trace (step E ev s) = trace s @ t \<and> refused t
           \<and> (granted t \<noteq> [] \<longrightarrow> queue (step E ev s) = [])"
proof (cases ev)
  case (Session b)
  then show ?thesis by (simp add: step_def refused_def)
next
  case (Call cs)
  obtain t1 where t1: "trace (fst (calls E cs s)) = trace s @ t1"
      "announces t1 (snd (calls E cs s))"
    using calls_shape by blast
  have "\<not> connected (fst (calls E cs s))" using assms by simp
  from ops_then_drain[OF this t1] show ?thesis
    by (simp add: step_def Call case_prod_beta)
next
  case (Response p res)
  show ?thesis
  proof (cases "find (\<lambda>e. e_pid e = p) (pending s)")
    case None
    then show ?thesis by (simp add: step_def Response refused_def)
  next
    case (Some e)
    let ?s0 = "s\<lparr>pending := remove1 e (pending s)\<rparr>"
    obtain t1 where t1: "trace (fst (comInverter_response E e res ?s0)) = trace ?s0 @ t1"
        "announces t1 (snd (comInverter_response E e res ?s0))"
      using response_shape by blast
    have dc: "\<not> connected (fst (comInverter_response E e res ?s0))" using assms by simp
    from t1(1) have "trace (fst (comInverter_response E e res ?s0)) = trace s @ t1" by simp
    from ops_then_drain[OF dc this t1(2)] show ?thesis
      by (simp add: step_def Response Some case_prod_beta)
  qed
qed

section \<open>Transport failure\<close>

text \<open>
  C3. When the transport fails (lines 927--930), \<^verbatim>\<open>comInverter\<close> rejects the
  command with the transport's error and, through \<^verbatim>\<open>qreject\<close>, gives up the
  slot; but it does not touch \<^verbatim>\<open>this.connected\<close>. In the run below a
  connected client posts one read, the transport fails, and the session is
  still marked connected afterwards; the command was rejected with the
  transport's error and the queue is empty.
\<close>

theorem transport_failure_leaves_connected:
  "connected (run example_env
      [Session True, Call [example_read], Response 0 (Failure (JStr ''ETIMEDOUT''))] init)
   \<and> settles 0 (trace (run example_env
      [Session True, Call [example_read], Response 0 (Failure (JStr ''ETIMEDOUT''))] init))
       = [Rejected (Thrown (JStr ''ETIMEDOUT''))]
   \<and> queue (run example_env
      [Session True, Call [example_read], Response 0 (Failure (JStr ''ETIMEDOUT''))] init) = []"
  by code_simp

section \<open>Acknowledgments that are not yet finished\<close>




text \<open>
  C2. In every state a client can reach, a promise created by \<^verbatim>\<open>comInverter\<close>
  has had \<^verbatim>\<open>resolve\<close>/\<^verbatim>\<open>reject\<close> called at most once in total (never both,
  never twice); as long as it has not been settled it is still owned by a
  waiting entry or a posted request that will settle it (it is never dropped);
  and whenever no request is outstanding it has been settled exactly once. This
  covers every branch: rejection by the check, a session that is not connected,
  transport failure, the server's rejection, a chain of retries, and a terminal
  acknowledgment with or without a result parser.
\<close>

theorem promise_settles_exactly_once:
  assumes "p < next_pid (run E evs init)"
  shows "length (settles p (trace (run E evs init))) \<le> 1
       \<and> (settles p (trace (run E evs init)) = [] \<longrightarrow> p \<in> set (owners [] (run E evs init)))
       \<and> (pending (run E evs init) = [] \<longrightarrow> length (settles p (trace (run E evs init))) = 1)"
proof -
  have c: "conserved [] (run E evs init)" by (rule conserved_run) (rule conserved_init)
  have h: "slot_held [] (run E evs init)" by (rule slot_held_run) (rule slot_held_init)
  show ?thesis
    using settled_at_most_once[OF c] unsettled_is_owned[OF c assms] settled_when_idle[OF c h _ assms]
    by blast
qed

text \<open>A run with a retry: the write is acknowledged "not yet finished" once, the
  read and then the re-issued write are acknowledged; the promise of the write
  has been settled exactly once.\<close>

theorem promise_settles_exactly_once_witness:
  "(0::nat) < next_pid (run example_env
        [Session True, Call [example_write example_values, example_read],
         Response 0 ack_unfinished, Response 1 ack_done, Response 2 ack_done] init)
   \<and> pending (run example_env
        [Session True, Call [example_write example_values, example_read],
         Response 0 ack_unfinished, Response 1 ack_done, Response 2 ack_done] init) = []
   \<and> length (settles 0 (trace (run example_env
        [Session True, Call [example_write example_values, example_read],
         Response 0 ack_unfinished, Response 1 ack_done, Response 2 ack_done] init))) = 1"
proof -
  let ?s = "run example_env
        [Session True, Call [example_write example_values, example_read],
         Response 0 ack_unfinished, Response 1 ack_done, Response 2 ack_done] init"
  have a: "(0::nat) < next_pid ?s" by code_simp
  have b: "pending ?s = []" by code_simp
  from promise_settles_exactly_once[OF a] b show ?thesis using a by blast
qed

section \<open>Calls the check refuses\<close>




section \<open>A command that gets the slot while the session is not connected\<close>

text \<open>
  C5. While the session's flag is false, whatever happens (calls, responses to
  requests posted earlier): nothing is posted to the transport, every command
  that is granted the slot is rejected with the not-connected error, and if a
  slot was granted at all the queue is empty afterwards (every slot was given up
  again). In particular, commands that pass the check and are submitted
  back-to-back to an idle queue are all rejected with the not-connected error,
  in the order of submission, without a request being posted.
\<close>

theorem not_connected_rejects:
  assumes "\<not> connected s"
  shows "(\<exists>t. trace (step E ev s) = trace s @ t \<and> posted t = []
            \<and> (\<forall>q \<in> set (granted t). Settled q (Rejected NotConnected) \<in> set t)
            \<and> (granted t \<noteq> [] \<longrightarrow> queue (step E ev s) = []))
       \<and> (queue s = [] \<and> (\<forall>c \<in> set cs. passes E c) \<longrightarrow>
            settled (trace (step E (Call cs) s))
              = settled (trace s)
                  @ map (\<lambda>i. (i, Rejected NotConnected)) [next_pid s ..< next_pid s + length cs]
            \<and> posted (trace (step E (Call cs) s)) = posted (trace s)
            \<and> queue (step E (Call cs) s) = [])"
proof -
  from step_while_disconnected[OF assms, of E ev]
  have a: "\<exists>t. trace (step E ev s) = trace s @ t \<and> posted t = []
            \<and> (\<forall>q \<in> set (granted t). Settled q (Rejected NotConnected) \<in> set t)
            \<and> (granted t \<noteq> [] \<longrightarrow> queue (step E ev s) = [])"
    by (simp add: refused_def)
  have b: "queue s = [] \<and> (\<forall>c \<in> set cs. passes E c) \<longrightarrow>
            settled (trace (step E (Call cs) s))
              = settled (trace s)
                  @ map (\<lambda>i. (i, Rejected NotConnected)) [next_pid s ..< next_pid s + length cs]
            \<and> posted (trace (step E (Call cs) s)) = posted (trace s)
            \<and> queue (step E (Call cs) s) = []"
    using calls_while_disconnected[OF assms, of cs E] by blast
  from a b show ?thesis by blast
qed

text \<open>A write and a read submitted back-to-back to a new client, which is not
  connected.\<close>

theorem not_connected_rejects_witness:
  "\<not> connected init \<and> queue init = []
   \<and> passes example_env (example_write example_values) \<and> passes example_env example_read
   \<and> settled (trace (step example_env (Call [example_write example_values, example_read]) init))
       = [(0, Rejected NotConnected), (1, Rejected NotConnected)]
   \<and> posted (trace (step example_env (Call [example_write example_values, example_read]) init))
       = []
   \<and> queue (step example_env (Call [example_write example_values, example_read]) init) = []"
proof -
  have a: "\<not> connected init" by (simp add: init_def)
  have q: "queue init = []" by (simp add: init_def)
  have w: "passes example_env (example_write example_values)" by code_simp
  have r: "passes example_env example_read" by code_simp
  have n: "next_pid init = 0" "settled (trace init) = []" "posted (trace init) = []"
    by (simp_all add: init_def)
  from q w r have h: "queue init = []
      \<and> (\<forall>c \<in> set [example_write example_values, example_read]. passes example_env c)"
    by simp
  from not_connected_rejects[OF a, of example_env "Call []"
      "[example_write example_values, example_read]"] h
  have "settled (trace (step example_env (Call [example_write example_values, example_read]) init))
          = settled (trace init)
              @ map (\<lambda>i. (i, Rejected NotConnected))
                  [next_pid init ..< next_pid init
                     + length [example_write example_values, example_read]]
        \<and> posted (trace (step example_env
              (Call [example_write example_values, example_read]) init)) = posted (trace init)
        \<and> queue (step example_env
              (Call [example_write example_values, example_read]) init) = []"
    by blast
  moreover have "[0 ..< 0 + length [example_write example_values, example_read]] = [0, 1]"
    by (simp add: upt_rec)
  ultimately show ?thesis using a q w r n by simp
qed

section \<open>The server's rejection\<close>



section \<open>The result parser on terminal success\<close>




section \<open>The check is repeatable\<close>



section \<open>Values the function does not declare\<close>

text \<open>
  C10. The check reads the supplied values only at the names the descriptor
  declares (line 863 iterates over \<^verbatim>\<open>Object.keys(p)\<close>): dropping every value
  with an undeclared name changes neither the outcome of the check (no error
  appears or disappears) nor the request it produces; and the fields of the
  request are among those of the request object built by the caller,
  \<^verbatim>\<open>action\<close>, and the declared parameter names.
\<close>

theorem undeclared_values_ignored:
  "comInverter_check GT PI type
      (po\<lparr>val := JObj (filter (\<lambda>(k, v). k \<in> set (declared GT type po)) vs)\<rparr>)
     = comInverter_check GT PI type (po\<lparr>val := JObj vs\<rparr>)
   \<and> (\<forall>param c. comInverter_check GT PI type (po\<lparr>val := JObj vs\<rparr>) = Inr (param, c) \<longrightarrow>
         fst ` set param \<subseteq> insert ''action'' (fst ` set (url po)) \<union> set (declared GT type po))"
proof -
  have "\<forall>param c. comInverter_check GT PI type (po\<lparr>val := JObj vs\<rparr>) = Inr (param, c) \<longrightarrow>
         fst ` set param \<subseteq> insert ''action'' (fst ` set (url po)) \<union> set (declared GT type po)"
    using check_keys[of GT PI type "po\<lparr>val := JObj vs\<rparr>"] by simp
  with check_filter show ?thesis by blast
qed

text \<open>A write with the undeclared value \<^verbatim>\<open>comment\<close>: the request has the fixed
  fields and the two declared parameters, with or without that value.\<close>

theorem undeclared_values_ignored_witness:
  "comInverter_check example_registry example_parsein ''tlx''
      (example_request\<lparr>val := JObj (filter
          (\<lambda>(k, v). k \<in> set (declared example_registry ''tlx'' example_request)) example_extra)\<rparr>)
     = Inr (example_fields, JNull)
   \<and> comInverter_check example_registry example_parsein ''tlx''
        (example_request\<lparr>val := JObj example_extra\<rparr>) = Inr (example_fields, JNull)
   \<and> fst ` set example_fields
        \<subseteq> insert ''action'' (fst ` set (url example_request))
            \<union> set (declared example_registry ''tlx'' example_request)"
proof -
  have r: "comInverter_check example_registry example_parsein ''tlx''
        (example_request\<lparr>val := JObj example_extra\<rparr>) = Inr (example_fields, JNull)"
    by code_simp
  from undeclared_values_ignored[of example_registry example_parsein "''tlx''" example_request
      example_extra] r
  show ?thesis by simp
qed

end
